theory Spec2Isabelle
  imports Main "HOL-Library.Word" "HOL-Library.Multiset"
begin

section \<open>Data model\<close>

text \<open>
  The repository holds two implementations of the same bounded multi-source
  shortest-path benchmark: \<^verbatim>\<open>impls/cpp/src/main.cpp\<close> and \<^verbatim>\<open>impls/c/src/main.c\<close>.
  Definitions prefixed \<open>cpp_\<close> embed the C++ file, those prefixed \<open>c_\<close> (and the
  heap functions) embed the C file.

  Distances and weights are \<^verbatim>\<open>uint64_t\<close> / \<^verbatim>\<open>U64\<close>: 64-bit words, so \<open>d + w\<close> wraps
  around as in the source and the "infinity" sentinel is the largest word.
  Node ids and array indices are naturals: the only arithmetic the engine does
  on them is \<^verbatim>\<open>v+1\<close> and \<^verbatim>\<open>++ei\<close> on values below an array length. Where the source
  casts a wider integer to 32 bits the cast is written out (\<open>cast_u32\<close>).
  An access outside an array (undefined behaviour in C and C++) is the
  error value \<open>OutOfBounds\<close>.
\<close>

type_synonym U64 = "64 word"

text \<open>The casts \<^verbatim>\<open>(uint32_t)x\<close> and \<^verbatim>\<open>(U32)x\<close> of a 64-bit value or size.\<close>

definition cast_u32 :: "nat \<Rightarrow> nat" where
  "cast_u32 x = unat (word_of_nat x :: 32 word)"

definition ULLONG_MAX :: U64 where
  "ULLONG_MAX = 18446744073709551615"

text \<open>\<^verbatim>\<open>struct Entry { U64 d; U32 v; }\<close> (both files). The fields are named
  \<open>e_d\<close>, \<open>e_v\<close>.\<close>

datatype Entry = Entry (e_d: U64) (e_v: nat)

text \<open>\<^verbatim>\<open>struct Edge { U32 to; U64 w; }\<close> (both files).\<close>

datatype Edge = Edge (edge_to: nat) (edge_w: U64)

text \<open>\<^verbatim>\<open>struct Graph { head; edges; n; m; }\<close>: compressed sparse rows. The out-edges
  of node \<open>u\<close> are \<open>edges[head[u]], ..., edges[head[u+1]-1]\<close>.\<close>

record Graph =
  g_head :: "nat list"
  g_edges :: "Edge list"
  g_n :: nat
  g_m :: nat

text \<open>\<open>OutOfBounds\<close>, \<open>DivisionByZero\<close> and \<open>Indeterminate\<close> (the use of a variable
  that was never written) stand for undefined behaviour; \<open>ReadFailed\<close> is a
  non-zero return code of a file reader of main.c, on which \<^verbatim>\<open>main\<close> prints a
  message and exits with status 1.\<close>

datatype error = OutOfBounds | DivisionByZero | ReadFailed | Indeterminate

section \<open>The C++ priority queue\<close>

text \<open>\<^verbatim>\<open>bool Entry::operator<(Entry const& o) const
   { if(d!=o.d) return d>o.d; return v>o.v; }\<close> (main.cpp line 4).\<close>

definition entry_less :: "Entry \<Rightarrow> Entry \<Rightarrow> bool" where
  "entry_less a b = (if e_d a \<noteq> e_d b then e_d a > e_d b else e_v a > e_v b)"

text \<open>\<^verbatim>\<open>std::priority_queue<Entry>\<close> is library code. It is modelled by its
  contract: the queue holds a bag of entries (here a list), \<^verbatim>\<open>top()\<close> is the
  greatest entry under \<^verbatim>\<open>operator<\<close>, \<^verbatim>\<open>pop()\<close> removes it, \<^verbatim>\<open>push\<close> adds one.\<close>

definition pq_push :: "Entry list \<Rightarrow> Entry \<Rightarrow> Entry list" where
  "pq_push q e = e # q"

text \<open>\<^verbatim>\<open>top()\<close> of an empty queue is undefined behaviour; the engine calls it only
  after \<^verbatim>\<open>!pq.empty()\<close>, and the first equation is never used by \<open>cpp_loop\<close>.\<close>

fun pq_top :: "Entry list \<Rightarrow> Entry" where
  "pq_top [] = Entry 0 0"
| "pq_top (x # xs) = foldl (\<lambda>a b. if entry_less a b then b else a) x xs"

definition pq_pop :: "Entry list \<Rightarrow> Entry list" where
  "pq_pop q = remove1 (pq_top q) q"

section \<open>The C binary heap\<close>

text \<open>The heap \<^verbatim>\<open>struct Heap { Entry* data; size_t n, cap; }\<close> is modelled by the
  list of its live entries \<open>data[0], ..., data[n-1]\<close>; \<^verbatim>\<open>cap\<close> and \<^verbatim>\<open>realloc\<close> only
  manage memory.\<close>

definition heap_init :: "Entry list" where
  "heap_init = []"

text \<open>The loop of \<^verbatim>\<open>heap_push\<close>:
  \<^verbatim>\<open>while(i){ size_t p=(i-1)/2; if(h->data[p].d<=e.d) break;
            h->data[i]=h->data[p]; i=p; } h->data[i]=e;\<close>\<close>

function sift_up :: "Entry list \<Rightarrow> nat \<Rightarrow> Entry \<Rightarrow> Entry list" where
  "sift_up data i e =
     (if i \<noteq> 0 then
        (let p = (i - 1) div 2 in
         if e_d (data ! p) \<le> e_d e then data[i := e]
         else sift_up (data[i := data ! p]) p e)
      else data[i := e])"
  by pat_completeness auto
termination
  by (relation "measure (\<lambda>(data, i, e). i)") auto

declare sift_up.simps [simp del]

text \<open>\<^verbatim>\<open>heap_push\<close>: \<^verbatim>\<open>size_t i=h->n++\<close> opens slot \<open>n\<close>, which the loop writes
  before it reads it; the model fills the new slot with \<open>e\<close>.\<close>

definition heap_push :: "Entry list \<Rightarrow> Entry \<Rightarrow> Entry list" where
  "heap_push h e = sift_up (h @ [e]) (length h) e"

text \<open>The loop of \<^verbatim>\<open>heap_pop\<close>:
  \<^verbatim>\<open>while(1){ size_t l=i*2+1, r=l+1; if(l>=h->n) break;
     size_t m=(r<h->n && h->data[r].d<h->data[l].d)? r:l;
     if(h->data[m].d>=x.d) break; h->data[i]=h->data[m]; i=m; } h->data[i]=x;\<close>\<close>

function sift_down :: "Entry list \<Rightarrow> nat \<Rightarrow> Entry \<Rightarrow> Entry list" where
  "sift_down data i x =
     (let l = i * 2 + 1; r = l + 1 in
      if l \<ge> length data then data[i := x]
      else
        (let m = (if r < length data \<and> e_d (data ! r) < e_d (data ! l) then r else l) in
         if e_d (data ! m) \<ge> e_d x then data[i := x]
         else sift_down (data[i := data ! m]) m x))"
  by pat_completeness auto
termination
  by (relation "measure (\<lambda>(data, i, x). length data - i)") (auto split: if_splits)

declare sift_down.simps [simp del]

text \<open>\<^verbatim>\<open>heap_pop\<close>: \<open>None\<close> is the return value 0 (nothing is written to \<^verbatim>\<open>*out\<close>);
  \<open>Some (out, h')\<close> is the return value 1 with the popped entry and the heap
  left behind. \<^verbatim>\<open>Entry x=h->data[--h->n]\<close> takes the last live entry.\<close>

definition heap_pop :: "Entry list \<Rightarrow> (Entry \<times> Entry list) option" where
  "heap_pop h =
     (if h = [] then None
      else Some (h ! 0, sift_down (butlast h) 0 (last h)))"

section \<open>Properties of the queues\<close>

subsection \<open>The heap ordering property\<close>

text \<open>The parent of slot \<open>j\<close>, as \<^verbatim>\<open>heap_push\<close> computes it: \<^verbatim>\<open>(i-1)/2\<close>.\<close>

definition parent :: "nat \<Rightarrow> nat" where
  "parent j = (j - 1) div 2"

text \<open>The binary-heap ordering property: the distance in every slot but the
  root is at least the distance in its parent slot.\<close>

definition is_heap :: "Entry list \<Rightarrow> bool" where
  "is_heap h = list_all (\<lambda>j. e_d (h ! parent j) \<le> e_d (h ! j)) [1..<length h]"

lemma is_heap_iff:
  "is_heap h \<longleftrightarrow> (\<forall>j. 0 < j \<and> j < length h \<longrightarrow> e_d (h ! parent j) \<le> e_d (h ! j))"
  by (auto simp: is_heap_def list_all_iff)

lemma parent_less: "0 < j \<Longrightarrow> parent j < j"
  by (simp add: parent_def)

lemma parent_eq_iff: "0 < j \<Longrightarrow> parent j = i \<longleftrightarrow> j = 2 * i + 1 \<or> j = 2 * i + 2"
  by (simp add: parent_def) arith

text \<open>The invariant of the loop of \<^verbatim>\<open>heap_push\<close>: slot \<open>i\<close> is a hole that will
  receive \<open>e\<close>; all parent-child pairs away from the hole are ordered, and the
  children of the hole are above both \<open>e\<close> and the hole's parent.\<close>

definition up_inv :: "Entry list \<Rightarrow> nat \<Rightarrow> Entry \<Rightarrow> bool" where
  "up_inv data i e \<longleftrightarrow> i < length data \<and>
     (\<forall>j. 0 < j \<and> j < length data \<and> j \<noteq> i \<and> parent j \<noteq> i \<longrightarrow>
          e_d (data ! parent j) \<le> e_d (data ! j)) \<and>
     (\<forall>j. 0 < j \<and> j < length data \<and> parent j = i \<longrightarrow>
          e_d e \<le> e_d (data ! j) \<and> (0 < i \<longrightarrow> e_d (data ! parent i) \<le> e_d (data ! j)))"

lemma up_inv_done:
  assumes "up_inv data i e" and "i = 0 \<or> e_d (data ! parent i) \<le> e_d e"
  shows "is_heap (data[i := e])"
  unfolding is_heap_iff
proof (intro allI impI)
  fix j assume j: "0 < j \<and> j < length (data[i := e])"
  then have pj: "parent j < j" "j < length data" by (simp_all add: parent_less)
  show "e_d (data[i := e] ! parent j) \<le> e_d (data[i := e] ! j)"
  proof (cases "j = i")
    case True
    with assms j pj show ?thesis by (auto simp: up_inv_def)
  next
    case False
    show ?thesis
    proof (cases "parent j = i")
      case True
      with assms j pj False show ?thesis by (auto simp: up_inv_def)
    next
      case F2: False
      with assms j pj False show ?thesis by (auto simp: up_inv_def)
    qed
  qed
qed

lemma up_inv_step:
  assumes inv: "up_inv data i e" and i: "i \<noteq> 0" and gt: "\<not> e_d (data ! parent i) \<le> e_d e"
  shows "up_inv (data[i := data ! parent i]) (parent i) e"
proof -
  let ?p = "parent i"
  let ?data' = "data[i := data ! ?p]"
  from i have pi: "?p < i" by (simp add: parent_less)
  from inv have il: "i < length data" by (simp add: up_inv_def)
  have A: "e_d (?data' ! parent j) \<le> e_d (?data' ! j)"
    if j: "0 < j" "j < length ?data'" "j \<noteq> ?p" "parent j \<noteq> ?p" for j
  proof -
    from j have jl: "j < length data" by simp
    have ji: "j \<noteq> i" using j by auto
    show ?thesis
    proof (cases "parent j = i")
      case True
      from inv have "\<forall>j. 0 < j \<and> j < length data \<and> parent j = i \<longrightarrow>
          e_d e \<le> e_d (data ! j) \<and> (0 < i \<longrightarrow> e_d (data ! parent i) \<le> e_d (data ! j))"
        by (simp add: up_inv_def)
      with j(1) jl True i have "e_d (data ! parent i) \<le> e_d (data ! j)" by blast
      with True ji il show ?thesis by simp
    next
      case False
      from inv have "\<forall>j. 0 < j \<and> j < length data \<and> j \<noteq> i \<and> parent j \<noteq> i \<longrightarrow>
          e_d (data ! parent j) \<le> e_d (data ! j)"
        by (simp add: up_inv_def)
      with j(1) jl ji False have "e_d (data ! parent j) \<le> e_d (data ! j)" by blast
      with False ji show ?thesis by simp
    qed
  qed
  have pp: "0 < ?p \<Longrightarrow> e_d (data ! parent ?p) \<le> e_d (data ! ?p)"
  proof -
    assume p0: "0 < ?p"
    then have "parent ?p < ?p" by (simp add: parent_less)
    with inv p0 pi il show ?thesis by (auto simp: up_inv_def)
  qed
  have B: "e_d e \<le> e_d (?data' ! j) \<and> (0 < ?p \<longrightarrow> e_d (?data' ! parent ?p) \<le> e_d (?data' ! j))"
    if j: "0 < j" "j < length ?data'" "parent j = ?p" for j
  proof (cases "j = i")
    case True
    have "parent ?p \<noteq> i" using pi parent_less[of ?p] by (cases "?p = 0") (auto simp: parent_def)
    with True gt il pp show ?thesis by auto
  next
    case False
    from j have jl: "j < length data" by simp
    have "j \<noteq> ?p" using j parent_less[of j] by auto
    from inv j jl False pi have 1: "e_d (data ! ?p) \<le> e_d (data ! j)"
      by (auto simp: up_inv_def)
    have "parent ?p \<noteq> i" using pi parent_less[of ?p] by (cases "?p = 0") (auto simp: parent_def)
    with 1 gt pp False show ?thesis by auto
  qed
  from A B il pi show ?thesis unfolding up_inv_def by auto
qed

lemma sift_up_is_heap: "up_inv data i e \<Longrightarrow> is_heap (sift_up data i e)"
proof (induction data i e rule: sift_up.induct)
  case (1 data i e)
  show ?case
  proof (cases "i = 0 \<or> e_d (data ! parent i) \<le> e_d e")
    case True
    then have "sift_up data i e = data[i := e]"
      by (subst sift_up.simps) (auto simp: parent_def Let_def)
    with up_inv_done[OF "1.prems" True] show ?thesis by simp
  next
    case False
    then have eq: "sift_up data i e = sift_up (data[i := data ! parent i]) (parent i) e"
      by (subst sift_up.simps) (auto simp: parent_def Let_def)
    from False have "up_inv (data[i := data ! parent i]) (parent i) e"
      using up_inv_step[OF "1.prems"] by auto
    with "1.IH"[of "parent i"] False eq show ?thesis by (auto simp: parent_def)
  qed
qed

lemma up_inv_init:
  assumes "is_heap h"
  shows "up_inv (h @ [e]) (length h) e"
proof -
  have A: "e_d ((h @ [e]) ! parent j) \<le> e_d ((h @ [e]) ! j)"
    if j: "0 < j" "j < length (h @ [e])" "j \<noteq> length h" for j
  proof -
    from j have jl: "j < length h" by simp
    with j have "parent j < length h" using parent_less[of j] by simp
    with assms j jl show ?thesis by (simp add: nth_append is_heap_iff)
  qed
  have B: "\<not> (0 < j \<and> j < length (h @ [e]) \<and> parent j = length h)" for j
    using parent_less[of j] by auto
  from A B show ?thesis unfolding up_inv_def by auto
qed

lemma is_heap_heap_push: "is_heap h \<Longrightarrow> is_heap (heap_push h e)"
  unfolding heap_push_def by (rule sift_up_is_heap) (rule up_inv_init)

lemma length_sift_up: "length (sift_up data i e) = length data"
proof (induction data i e rule: sift_up.induct)
  case (1 data i e)
  show ?case
    by (subst sift_up.simps) (use 1 in \<open>auto simp: Let_def\<close>)
qed

lemma mset_sift_up: "i < length data \<Longrightarrow> mset (sift_up data i e) = mset (data[i := e])"
proof (induction data i e rule: sift_up.induct)
  case (1 data i e)
  show ?case
  proof (cases "i = 0 \<or> e_d (data ! parent i) \<le> e_d e")
    case True
    then show ?thesis by (subst sift_up.simps) (auto simp: parent_def Let_def)
  next
    case False
    let ?p = "parent i"
    from False have pi: "?p < i" by (simp add: parent_less)
    from False have eq: "sift_up data i e = sift_up (data[i := data ! ?p]) ?p e"
      by (subst sift_up.simps) (auto simp: parent_def Let_def)
    have "mset (sift_up (data[i := data ! ?p]) ?p e) = mset (data[i := data ! ?p, ?p := e])"
      using "1.IH"[of ?p] False pi "1.prems" by (auto simp: parent_def)
    also have "data[i := data ! ?p, ?p := e] = (data[?p := e])[i := data ! ?p]"
      using pi by (simp add: list_update_swap)
    also have "\<dots> = (data[i := e])[i := (data[i := e]) ! ?p, ?p := (data[i := e]) ! i]"
      using pi "1.prems" by (simp add: list_update_swap)
    also have "mset \<dots> = mset (data[i := e])"
      using pi "1.prems" by (intro mset_swap) simp_all
    finally show ?thesis using eq by simp
  qed
qed


text \<open>The invariant of the loop of \<^verbatim>\<open>heap_pop\<close>: slot \<open>i\<close> is a hole that will
  receive \<open>x\<close>; all pairs away from the hole are ordered, and the hole's parent is
  below the hole's children and below \<open>x\<close>.\<close>

definition down_inv :: "Entry list \<Rightarrow> nat \<Rightarrow> Entry \<Rightarrow> bool" where
  "down_inv data i x \<longleftrightarrow> i < length data \<and>
     (\<forall>j. 0 < j \<and> j < length data \<and> j \<noteq> i \<and> parent j \<noteq> i \<longrightarrow>
          e_d (data ! parent j) \<le> e_d (data ! j)) \<and>
     (\<forall>j. 0 < j \<and> j < length data \<and> parent j = i \<longrightarrow>
          (0 < i \<longrightarrow> e_d (data ! parent i) \<le> e_d (data ! j))) \<and>
     (0 < i \<longrightarrow> e_d (data ! parent i) \<le> e_d x)"

text \<open>The child \<^verbatim>\<open>m\<close> that the loop of \<^verbatim>\<open>heap_pop\<close> selects.\<close>

definition lesser_child :: "Entry list \<Rightarrow> nat \<Rightarrow> nat" where
  "lesser_child data i =
     (if i * 2 + 2 < length data \<and> e_d (data ! (i * 2 + 2)) < e_d (data ! (i * 2 + 1))
      then i * 2 + 2 else i * 2 + 1)"

lemma sift_down_unfold:
  "sift_down data i x =
     (if i * 2 + 1 \<ge> length data \<or> e_d (data ! lesser_child data i) \<ge> e_d x
      then data[i := x]
      else sift_down (data[i := data ! lesser_child data i]) (lesser_child data i) x)"
  by (subst sift_down.simps) (simp add: Let_def lesser_child_def)

lemma lesser_child_props:
  assumes "i * 2 + 1 < length data"
  shows "lesser_child data i < length data" "parent (lesser_child data i) = i"
    "0 < lesser_child data i" "i < lesser_child data i"
    "\<And>j. 0 < j \<Longrightarrow> j < length data \<Longrightarrow> parent j = i \<Longrightarrow>
        e_d (data ! lesser_child data i) \<le> e_d (data ! j)"
proof -
  show "lesser_child data i < length data" using assms by (simp add: lesser_child_def)
  show "parent (lesser_child data i) = i" by (simp add: lesser_child_def parent_def)
  show "0 < lesser_child data i" by (simp add: lesser_child_def)
  show "i < lesser_child data i" by (simp add: lesser_child_def)
  fix j assume j: "0 < j" "j < length data" "parent j = i"
  then have "j = 2 * i + 1 \<or> j = 2 * i + 2" by (simp add: parent_eq_iff)
  then show "e_d (data ! lesser_child data i) \<le> e_d (data ! j)"
    using j by (auto simp: lesser_child_def mult.commute)
qed

lemma down_inv_done:
  assumes inv: "down_inv data i x"
    and stop: "i * 2 + 1 \<ge> length data \<or> e_d (data ! lesser_child data i) \<ge> e_d x"
  shows "is_heap (data[i := x])"
  unfolding is_heap_iff
proof (intro allI impI)
  fix j assume j: "0 < j \<and> j < length (data[i := x])"
  then have pj: "parent j < j" "j < length data" "0 < j" by (simp_all add: parent_less)
  from inv have il: "i < length data" by (simp add: down_inv_def)
  show "e_d (data[i := x] ! parent j) \<le> e_d (data[i := x] ! j)"
  proof (cases "j = i")
    case True
    with inv pj show ?thesis by (auto simp: down_inv_def)
  next
    case False
    show ?thesis
    proof (cases "parent j = i")
      case True
      then have "j = 2 * i + 1 \<or> j = 2 * i + 2" using pj by (simp add: parent_eq_iff)
      with pj have c: "i * 2 + 1 < length data" by auto
      with stop have "e_d x \<le> e_d (data ! lesser_child data i)" by simp
      also have "\<dots> \<le> e_d (data ! j)" using lesser_child_props(5)[OF c pj(3) pj(2) True] .
      finally show ?thesis using True False il by simp
    next
      case F2: False
      from inv have "\<forall>j. 0 < j \<and> j < length data \<and> j \<noteq> i \<and> parent j \<noteq> i \<longrightarrow>
          e_d (data ! parent j) \<le> e_d (data ! j)" by (simp add: down_inv_def)
      with pj False F2 have "e_d (data ! parent j) \<le> e_d (data ! j)" by blast
      with False F2 show ?thesis by simp
    qed
  qed
qed

lemma down_inv_step:
  assumes inv: "down_inv data i x"
    and go: "i * 2 + 1 < length data" "\<not> e_d (data ! lesser_child data i) \<ge> e_d x"
  shows "down_inv (data[i := data ! lesser_child data i]) (lesser_child data i) x"
proof -
  let ?m = "lesser_child data i"
  let ?data' = "data[i := data ! ?m]"
  note mp = lesser_child_props[OF go(1)]
  from inv have il: "i < length data" by (simp add: down_inv_def)
  from inv have I1: "\<And>j. 0 < j \<Longrightarrow> j < length data \<Longrightarrow> j \<noteq> i \<Longrightarrow> parent j \<noteq> i \<Longrightarrow>
          e_d (data ! parent j) \<le> e_d (data ! j)" by (simp add: down_inv_def)
  from inv have I2: "\<And>j. 0 < j \<Longrightarrow> j < length data \<Longrightarrow> parent j = i \<Longrightarrow> 0 < i \<Longrightarrow>
          e_d (data ! parent i) \<le> e_d (data ! j)" by (simp add: down_inv_def)
  have A: "e_d (?data' ! parent j) \<le> e_d (?data' ! j)"
    if j: "0 < j" "j < length ?data'" "j \<noteq> ?m" "parent j \<noteq> ?m" for j
  proof -
    from j have jl: "j < length data" by simp
    show ?thesis
    proof (cases "j = i")
      case True
      with j have i0: "0 < i" by simp
      have "parent i \<noteq> i" using parent_less[OF i0] by simp
      moreover have "e_d (data ! parent i) \<le> e_d (data ! ?m)"
        using I2[OF mp(3) mp(1) mp(2) i0] .
      ultimately show ?thesis using True il by simp
    next
      case False
      show ?thesis
      proof (cases "parent j = i")
        case True
        have "e_d (data ! ?m) \<le> e_d (data ! j)" using mp(5)[OF j(1) jl True] .
        with True False il show ?thesis by simp
      next
        case F2: False
        with I1[OF j(1) jl False F2] False show ?thesis by simp
      qed
    qed
  qed
  have B: "e_d (?data' ! parent ?m) \<le> e_d (?data' ! j)"
    if j: "0 < j" "j < length ?data'" "parent j = ?m" for j
  proof -
    from j have jl: "j < length data" by simp
    have ji: "j \<noteq> i" using parent_less[OF j(1)] j(3) mp(4) by simp
    have pji: "parent j \<noteq> i" using j(3) mp(4) by simp
    from I1[OF j(1) jl ji pji] have "e_d (data ! ?m) \<le> e_d (data ! j)" using j(3) by simp
    with mp(2) ji il show ?thesis by simp
  qed
  have C: "e_d (?data' ! parent ?m) \<le> e_d x"
    using mp(2) il go(2) by simp
  from A B C mp(1) show ?thesis unfolding down_inv_def by auto
qed

lemma sift_down_is_heap: "down_inv data i x \<Longrightarrow> is_heap (sift_down data i x)"
proof (induction "length data - i" arbitrary: data i rule: less_induct)
  case less
  show ?case
  proof (cases "i * 2 + 1 \<ge> length data \<or> e_d (data ! lesser_child data i) \<ge> e_d x")
    case True
    then have "sift_down data i x = data[i := x]"
      by (subst sift_down_unfold) simp
    with down_inv_done[OF less.prems True] show ?thesis by simp
  next
    case False
    let ?m = "lesser_child data i"
    from False have eq: "sift_down data i x = sift_down (data[i := data ! ?m]) ?m x"
      by (subst sift_down_unfold) simp
    from False have c: "i * 2 + 1 < length data" by simp
    from False have inv': "down_inv (data[i := data ! ?m]) ?m x"
      using down_inv_step[OF less.prems] by simp
    have "length (data[i := data ! ?m]) - ?m < length data - i"
      using lesser_child_props(1,4)[OF c] by simp
    from less.hyps[OF this inv'] eq show ?thesis by simp
  qed
qed

lemma length_sift_down: "length (sift_down data i x) = length data"
proof (induction "length data - i" arbitrary: data i rule: less_induct)
  case less
  show ?case
  proof (cases "i * 2 + 1 \<ge> length data \<or> e_d (data ! lesser_child data i) \<ge> e_d x")
    case True
    then show ?thesis by (subst sift_down_unfold) simp
  next
    case False
    let ?m = "lesser_child data i"
    from False have c: "i * 2 + 1 < length data" by simp
    have "length (data[i := data ! ?m]) - ?m < length data - i"
      using lesser_child_props(1,4)[OF c] by simp
    from less.hyps[OF this] False show ?thesis by (subst sift_down_unfold) simp
  qed
qed

lemma mset_sift_down: "i < length data \<Longrightarrow> mset (sift_down data i x) = mset (data[i := x])"
proof (induction "length data - i" arbitrary: data i rule: less_induct)
  case less
  show ?case
  proof (cases "i * 2 + 1 \<ge> length data \<or> e_d (data ! lesser_child data i) \<ge> e_d x")
    case True
    then show ?thesis by (subst sift_down_unfold) simp
  next
    case False
    let ?m = "lesser_child data i"
    from False have c: "i * 2 + 1 < length data" by simp
    note mp = lesser_child_props(1,4)[OF c]
    from False have eq: "sift_down data i x = sift_down (data[i := data ! ?m]) ?m x"
      by (subst sift_down_unfold) simp
    have "length (data[i := data ! ?m]) - ?m < length data - i"
      using mp by simp
    from less.hyps[OF this] mp
    have "mset (sift_down (data[i := data ! ?m]) ?m x) = mset (data[i := data ! ?m, ?m := x])"
      by simp
    also have "data[i := data ! ?m, ?m := x] =
        (data[i := x])[i := (data[i := x]) ! ?m, ?m := (data[i := x]) ! i]"
      using mp less.prems by simp
    also have "mset \<dots> = mset (data[i := x])"
      using mp less.prems by (intro mset_swap) simp_all
    finally show ?thesis using eq by simp
  qed
qed

lemma is_heap_root_min:
  assumes "is_heap h" "j < length h"
  shows "e_d (h ! 0) \<le> e_d (h ! j)"
  using assms(2)
proof (induction j rule: less_induct)
  case (less j)
  show ?case
  proof (cases "j = 0")
    case True
    then show ?thesis by simp
  next
    case False
    then have pj: "parent j < j" by (simp add: parent_less)
    with less.prems have "parent j < length h" by simp
    from less.IH[OF pj this] have "e_d (h ! 0) \<le> e_d (h ! parent j)" .
    also have "\<dots> \<le> e_d (h ! j)"
      using assms(1) False less.prems by (simp add: is_heap_iff)
    finally show ?thesis .
  qed
qed

lemma down_inv_init:
  assumes "is_heap h" "1 < length h"
  shows "down_inv (butlast h) 0 (last h)"
proof -
  have "e_d (butlast h ! parent j) \<le> e_d (butlast h ! j)"
    if j: "0 < j" "j < length (butlast h)" for j
  proof -
    from j have jl: "j < length h" by simp
    have "parent j < j" using j by (simp add: parent_less)
    with j have "parent j < length (butlast h)" by simp
    with assms(1) j jl show ?thesis by (simp add: nth_butlast is_heap_iff)
  qed
  with assms(2) show ?thesis unfolding down_inv_def by auto
qed

lemma heap_pop_empty: "heap_pop [] = None"
  by (simp add: heap_pop_def)

lemma sift_down_Nil: "sift_down [] 0 x = []"
  by (subst sift_down_unfold) simp

lemma heap_pop_nonempty:
  assumes "h \<noteq> []"
  shows "\<exists>out h'. heap_pop h = Some (out, h') \<and> out = h ! 0 \<and>
           mset h = add_mset out (mset h') \<and> length h' = length h - 1"
proof (cases "length h = 1")
  case True
  then obtain a where h: "h = [a]" by (cases h) auto
  then show ?thesis by (simp add: heap_pop_def sift_down_Nil)
next
  case False
  with assms have l: "1 < length h" by (cases h) auto
  let ?b = "butlast h"
  have bl: "0 < length ?b" using l by simp
  have h: "h = ?b @ [last h]" using assms by simp
  have "mset (sift_down ?b 0 (last h)) = mset (?b[0 := last h])"
    using bl by (rule mset_sift_down)
  also have "\<dots> = add_mset (last h) (mset ?b - {#?b ! 0#})"
    using bl by (simp add: mset_update)
  finally have m: "mset (sift_down ?b 0 (last h)) = add_mset (last h) (mset ?b - {#?b ! 0#})" .
  have b0: "?b ! 0 = h ! 0" using bl by (simp add: nth_butlast)
  have "?b ! 0 \<in># mset ?b" using bl by simp
  then have "add_mset (h ! 0) (add_mset (last h) (mset ?b - {#?b ! 0#})) = add_mset (last h) (mset ?b)"
    using b0 by (metis add_mset_commute insert_DiffM)
  also have "\<dots> = mset h" by (subst (2) h) simp
  finally have "mset h = add_mset (h ! 0) (mset (sift_down ?b 0 (last h)))" using m by simp
  with assms show ?thesis by (simp add: heap_pop_def length_sift_down)
qed

lemma is_heap_heap_pop:
  assumes "is_heap h" "heap_pop h = Some (out, h')"
  shows "is_heap h'"
proof -
  from assms(2) have ne: "h \<noteq> []" and h': "h' = sift_down (butlast h) 0 (last h)"
    by (auto simp: heap_pop_def split: if_splits)
  show ?thesis
  proof (cases "1 < length h")
    case True
    from sift_down_is_heap[OF down_inv_init[OF assms(1) True]] h' show ?thesis by simp
  next
    case False
    with ne have "butlast h = []" by (cases h) auto
    with h' show ?thesis by (simp add: sift_down_Nil is_heap_def)
  qed
qed

lemma heap_pop_min:
  assumes "is_heap h" "heap_pop h = Some (out, h')" "x \<in> set h"
  shows "e_d out \<le> e_d x"
proof -
  from assms(2) have out: "out = h ! 0" by (auto simp: heap_pop_def split: if_splits)
  from assms(3) obtain j where "j < length h" "x = h ! j" by (auto simp: in_set_conv_nth)
  with is_heap_root_min[OF assms(1)] out show ?thesis by simp
qed

lemma mset_heap_push: "mset (heap_push h e) = add_mset e (mset h)"
  by (simp add: heap_push_def mset_sift_up)

subsection \<open>The C++ queue pops the lexicographically least entry\<close>

text \<open>The lexicographic order on (distance, node id).\<close>

definition lex_le :: "Entry \<Rightarrow> Entry \<Rightarrow> bool" where
  "lex_le a b \<longleftrightarrow> e_d a < e_d b \<or> (e_d a = e_d b \<and> e_v a \<le> e_v b)"

lemma lex_le_refl: "lex_le a a"
  by (simp add: lex_le_def)

lemma lex_le_trans: "lex_le a b \<Longrightarrow> lex_le b c \<Longrightarrow> lex_le a c"
  by (auto simp: lex_le_def)

lemma entry_less_iff: "entry_less a b \<longleftrightarrow> lex_le b a \<and> \<not> lex_le a b"
  by (auto simp: entry_less_def lex_le_def)

lemma lex_le_total: "lex_le a b \<or> lex_le b a"
  by (auto simp: lex_le_def)

lemma foldl_top:
  "foldl (\<lambda>a b. if entry_less a b then b else a) x xs \<in> set (x # xs) \<and>
   (\<forall>y \<in> set (x # xs). lex_le (foldl (\<lambda>a b. if entry_less a b then b else a) x xs) y)"
proof (induction xs arbitrary: x)
  case Nil
  then show ?case by (simp add: lex_le_refl)
next
  case (Cons z zs)
  let ?f = "\<lambda>a b. if entry_less a b then b else a"
  let ?r = "foldl ?f (?f x z) zs"
  from Cons[of "?f x z"] have mem: "?r \<in> set (?f x z # zs)"
    and le: "\<forall>y\<in>set (?f x z # zs). lex_le ?r y" by blast+
  have fx: "lex_le (?f x z) x" and fz: "lex_le (?f x z) z"
    using lex_le_total[of x z] by (auto simp: entry_less_iff lex_le_refl)
  from le have "lex_le ?r (?f x z)" by simp
  then have "lex_le ?r x" "lex_le ?r z" using fx fz lex_le_trans by blast+
  with mem le show ?case by auto
qed

lemma pq_top_in: "q \<noteq> [] \<Longrightarrow> pq_top q \<in> set q"
  using foldl_top by (cases q) auto

lemma pq_top_least: "x \<in> set q \<Longrightarrow> lex_le (pq_top q) x"
  using foldl_top by (cases q) auto

lemma mset_pq_pop: "q \<noteq> [] \<Longrightarrow> mset q = add_mset (pq_top q) (mset (pq_pop q))"
  using pq_top_in[of q] by (simp add: pq_pop_def)

lemma length_pq_pop: "q \<noteq> [] \<Longrightarrow> length (pq_pop q) < length q"
  using pq_top_in[of q] by (simp add: pq_pop_def length_remove1)

subsection \<open>Sequences of heap operations\<close>

text \<open>A call of \<^verbatim>\<open>heap_push(h, e)\<close> or of \<^verbatim>\<open>heap_pop(h, &out)\<close>; \<open>run_heap_ops\<close> is the
  heap after a sequence of calls on a heap fresh from \<^verbatim>\<open>heap_init\<close>.\<close>

datatype heap_op = Push Entry | Pop

fun apply_heap_op :: "Entry list \<Rightarrow> heap_op \<Rightarrow> Entry list" where
  "apply_heap_op h (Push e) = heap_push h e"
| "apply_heap_op h Pop = (case heap_pop h of None \<Rightarrow> h | Some (out, h') \<Rightarrow> h')"

definition run_heap_ops :: "heap_op list \<Rightarrow> Entry list" where
  "run_heap_ops ops = foldl apply_heap_op heap_init ops"

lemma is_heap_Nil: "is_heap []"
  by (simp add: is_heap_def)

lemma is_heap_apply_heap_op: "is_heap h \<Longrightarrow> is_heap (apply_heap_op h opn)"
  by (cases opn) (auto simp: is_heap_heap_push is_heap_heap_pop split: option.splits)

lemma is_heap_foldl: "is_heap h \<Longrightarrow> is_heap (foldl apply_heap_op h ops)"
  by (induction ops arbitrary: h) (simp_all add: is_heap_apply_heap_op)

lemma is_heap_run_heap_ops: "is_heap (run_heap_ops ops)"
  by (simp add: run_heap_ops_def heap_init_def is_heap_foldl is_heap_Nil)

lemma heap_pop_spec:
  assumes "is_heap h" "h \<noteq> []"
  shows "\<exists>out h'. heap_pop h = Some (out, h') \<and> out \<in> set h \<and>
           (\<forall>x \<in> set h. e_d out \<le> e_d x) \<and>
           mset h = add_mset out (mset h') \<and> is_heap h'"
proof -
  from heap_pop_nonempty[OF assms(2)] obtain out h' where
    p: "heap_pop h = Some (out, h')" and o: "out = h ! 0"
    and m: "mset h = add_mset out (mset h')" by blast
  from o assms(2) have "out \<in> set h" by (cases h) auto
  moreover have "\<forall>x \<in> set h. e_d out \<le> e_d x"
    using heap_pop_min[OF assms(1) p] by blast
  moreover have "is_heap h'" using is_heap_heap_pop[OF assms(1) p] .
  ultimately show ?thesis using p m by blast
qed

section \<open>The bounded shortest-path engine\<close>

text \<open>The variables of one trial of \<^verbatim>\<open>main\<close> (both files): the distance array, the
  queue (\<^verbatim>\<open>pq\<close> in main.cpp, the heap \<^verbatim>\<open>h\<close> in main.c), \<^verbatim>\<open>b_prime\<close> and the three
  counters. The counters are \<^verbatim>\<open>size_t\<close> in main.cpp and \<^verbatim>\<open>uint32_t\<close> in main.c: the
  type \<open>'c\<close> of the counters is \<open>64 word\<close> for main.cpp and \<open>32 word\<close> for main.c.

  The field \<open>trace\<close> is a history variable that the source does not have. It
  records, in order, every popped entry (\<open>Stale\<close> when the staleness check
  \<^verbatim>\<open>d!=dist[v]\<close> discards it, \<open>Fresh\<close> when it passes) and every relaxation
  candidate \<open>nd\<close> with \<open>nd >= B\<close> (\<open>Cand\<close>). No other field is computed from it.\<close>

datatype event = Stale U64 nat | Fresh U64 nat | Cand U64

record 'c state =
  dist :: "U64 list"
  pq :: "Entry list"
  b_prime :: U64
  popped :: 'c
  heap_pushes :: 'c
  edges_scanned :: 'c
  trace :: "event list"

type_synonym cpp_state = "64 word state"
type_synonym c_state = "32 word state"

text \<open>The body of the inner \<^verbatim>\<open>for\<close> loop (main.cpp line 137, main.c lines 160-162),
  the same in both files except for the queue's push operation:
  \<^verbatim>\<open>edges_scanned++; auto [to,w]=g.edges[ei]; U64 nd=d+w;
   if(nd<dist[to] && nd<B){ dist[to]=nd; pq.push({nd,to}); heap_pushes++; }
   else if(nd>=B && nd<b_prime) b_prime=nd;\<close>\<close>

definition relax_edge ::
  "(Entry list \<Rightarrow> Entry \<Rightarrow> Entry list) \<Rightarrow> Graph \<Rightarrow> U64 \<Rightarrow> U64 \<Rightarrow> nat \<Rightarrow> ('c::len) word state
     \<Rightarrow> error + 'c word state" where
  "relax_edge push g B d0 ei st =
     (if ei < length (g_edges g) then
        (let st1 = st\<lparr>edges_scanned := edges_scanned st + 1\<rparr>;
             t = edge_to (g_edges g ! ei);
             nd = d0 + edge_w (g_edges g ! ei);
             st2 = (if nd \<ge> B then st1\<lparr>trace := trace st1 @ [Cand nd]\<rparr> else st1)
         in
           if t < length (dist st2) then
             (if nd < dist st2 ! t \<and> nd < B then
                Inr (st2\<lparr>dist := (dist st2)[t := nd],
                         pq := push (pq st2) (Entry nd t),
                         heap_pushes := heap_pushes st2 + 1\<rparr>)
              else if nd \<ge> B \<and> nd < b_prime st2 then Inr (st2\<lparr>b_prime := nd\<rparr>)
              else Inr st2)
           else Inl OutOfBounds)
      else Inl OutOfBounds)"

text \<open>The inner loop \<^verbatim>\<open>for(ei=g.head[v]; ei<g.head[v+1]; ++ei)\<close>, over the list of the
  indices it visits.\<close>

fun relax_edges ::
  "(Entry list \<Rightarrow> Entry \<Rightarrow> Entry list) \<Rightarrow> Graph \<Rightarrow> U64 \<Rightarrow> U64 \<Rightarrow> nat list \<Rightarrow> ('c::len) word state
     \<Rightarrow> error + 'c word state" where
  "relax_edges push g B d0 [] st = Inr st"
| "relax_edges push g B d0 (ei # eis) st =
     (case relax_edge push g B d0 ei st of
        Inl err \<Rightarrow> Inl err
      | Inr st' \<Rightarrow> relax_edges push g B d0 eis st')"

text \<open>The body of the main loop after the pop (main.cpp lines 135-137, main.c lines
  156-163), for the popped entry \<open>cur\<close>. The boolean of the result is \<open>True\<close> when
  the loop goes on (\<^verbatim>\<open>continue\<close>, or the end of the body) and \<open>False\<close> on \<^verbatim>\<open>break\<close>.\<close>

definition visit ::
  "(Entry list \<Rightarrow> Entry \<Rightarrow> Entry list) \<Rightarrow> Graph \<Rightarrow> U64 \<Rightarrow> Entry \<Rightarrow> ('c::len) word state
     \<Rightarrow> error + (bool \<times> 'c word state)" where
  "visit push g B cur st =
     (if e_v cur < length (dist st) then
        (if e_d cur \<noteq> dist st ! e_v cur then
           Inr (True, st\<lparr>trace := trace st @ [Stale (e_d cur) (e_v cur)]\<rparr>)
         else
           (let st1 = st\<lparr>trace := trace st @ [Fresh (e_d cur) (e_v cur)]\<rparr> in
            if e_d cur \<ge> B then Inr (False, st1\<lparr>b_prime := e_d cur\<rparr>)
            else
              (let st2 = st1\<lparr>popped := popped st1 + 1\<rparr> in
               if e_v cur + 1 < length (g_head g) then
                 (case relax_edges push g B (e_d cur)
                         [g_head g ! e_v cur ..< g_head g ! (e_v cur + 1)] st2 of
                    Inl err \<Rightarrow> Inl err
                  | Inr st3 \<Rightarrow> Inr (True, st3))
               else Inl OutOfBounds)))
      else Inl OutOfBounds)"

subsection \<open>Each iteration makes progress\<close>

definition dist_sum :: "('c::len) word state \<Rightarrow> nat" where
  "dist_sum st = sum_list (map unat (dist st))"

lemma sum_list_update_less:
  fixes xs :: "U64 list"
  assumes "i < length xs" "y < xs ! i"
  shows "sum_list (map unat (xs[i := y])) < sum_list (map unat xs)"
proof -
  have "sum_list ((map unat xs)[i := unat y]) = sum_list (map unat xs) + unat y - unat (xs ! i)"
    using assms(1) by (simp add: sum_list_update)
  moreover have "unat y < unat (xs ! i)" using assms(2) by (simp add: word_less_nat_alt)
  moreover have "unat (xs ! i) \<le> sum_list (map unat xs)"
    using assms(1) by (intro member_le_sum_list) simp_all
  ultimately show ?thesis by (simp add: map_update)
qed

lemma relax_edge_progress:
  assumes "relax_edge push g B d0 ei st = Inr st'"
  shows "(dist st' = dist st \<and> pq st' = pq st) \<or> dist_sum st' < dist_sum st"
  using assms
  by (auto simp: relax_edge_def Let_def dist_sum_def sum_list_update_less split: if_splits)

lemma relax_edges_progress:
  assumes "relax_edges push g B d0 eis st = Inr st'"
  shows "(dist st' = dist st \<and> pq st' = pq st) \<or> dist_sum st' < dist_sum st"
  using assms
proof (induction eis arbitrary: st)
  case Nil
  then show ?case by simp
next
  case (Cons ei eis)
  then obtain st1 where 1: "relax_edge push g B d0 ei st = Inr st1"
    and 2: "relax_edges push g B d0 eis st1 = Inr st'"
    by (auto split: sum.splits)
  from relax_edge_progress[OF 1] Cons.IH[OF 2] show ?case
    by (auto simp: dist_sum_def)
qed

lemma visit_progress:
  assumes "visit push g B cur st = Inr (c, st')"
  shows "(dist st' = dist st \<and> pq st' = pq st) \<or> dist_sum st' < dist_sum st"
proof -
  have "(dist st' = dist st \<and> pq st' = pq st) \<or> dist_sum st' < dist_sum st"
    if "relax_edges push g B d0 eis (st\<lparr>trace := tr, popped := p\<rparr>) = Inr st'" for d0 eis tr p
    using relax_edges_progress[OF that] by (simp add: dist_sum_def)
  with assms show ?thesis
    by (auto simp: visit_def Let_def split: if_splits sum.splits)
qed

subsection \<open>The main loops\<close>

text \<open>main.cpp line 134-138:
  \<^verbatim>\<open>while(!pq.empty()){ auto [d,v]=pq.top(); pq.pop(); ... }\<close>\<close>

function cpp_loop :: "Graph \<Rightarrow> U64 \<Rightarrow> cpp_state \<Rightarrow> error + cpp_state" where
  "cpp_loop g B st =
     (if pq st = [] then Inr st
      else
        (case visit pq_push g B (pq_top (pq st)) (st\<lparr>pq := pq_pop (pq st)\<rparr>) of
           Inl err \<Rightarrow> Inl err
         | Inr (continue, st') \<Rightarrow> if continue then cpp_loop g B st' else Inr st'))"
  by pat_completeness auto
termination
proof (relation "measures [\<lambda>(g, B, st). dist_sum st, \<lambda>(g, B, st). length (pq st)]", goal_cases)
  case 1
  show ?case by simp
next
  case (2 g B st x2 continue st')
  from 2(2,3) have "visit pq_push g B (pq_top (pq st)) (st\<lparr>pq := pq_pop (pq st)\<rparr>) = Inr (continue, st')"
    by simp
  from visit_progress[OF this] length_pq_pop[OF 2(1)]
  show ?case by (auto simp: dist_sum_def)
qed

declare cpp_loop.simps [simp del]

text \<open>main.c lines 155-164: \<^verbatim>\<open>while(heap_pop(&h,&cur)){ ... }\<close>\<close>

function c_loop :: "Graph \<Rightarrow> U64 \<Rightarrow> c_state \<Rightarrow> error + c_state" where
  "c_loop g B st =
     (case heap_pop (pq st) of
        None \<Rightarrow> Inr st
      | Some (cur, h') \<Rightarrow>
          (case visit heap_push g B cur (st\<lparr>pq := h'\<rparr>) of
             Inl err \<Rightarrow> Inl err
           | Inr (continue, st') \<Rightarrow> if continue then c_loop g B st' else Inr st'))"
  by pat_completeness auto
termination
proof (relation "measures [\<lambda>(g, B, st). dist_sum st, \<lambda>(g, B, st). length (pq st)]", goal_cases)
  case 1
  show ?case by simp
next
  case (2 g B st x2 cur h' x2a continue st')
  from 2 have hp: "heap_pop (pq st) = Some (cur, h')"
    and v: "visit heap_push g B cur (st\<lparr>pq := h'\<rparr>) = Inr (continue, st')"
    by simp_all
  from hp have ne: "pq st \<noteq> []" by (auto simp: heap_pop_def split: if_splits)
  from heap_pop_nonempty[OF ne] hp have "length h' = length (pq st) - 1" by auto
  with ne have "length h' < length (pq st)" by (cases "pq st") auto
  with visit_progress[OF v] show ?case by (auto simp: dist_sum_def)
qed

declare c_loop.simps [simp del]

subsection \<open>One trial\<close>

text \<open>main.cpp line 131:
  \<^verbatim>\<open>for(auto [s,d0]: src){ if(d0<B){ dist[s]=d0; pq.push({d0,s}); } }\<close>\<close>

fun cpp_init_sources :: "U64 \<Rightarrow> (nat \<times> U64) list \<Rightarrow> cpp_state \<Rightarrow> error + cpp_state" where
  "cpp_init_sources B [] st = Inr st"
| "cpp_init_sources B ((s, d0) # src) st =
     (if d0 < B then
        (if s < length (dist st) then
           cpp_init_sources B src
             (st\<lparr>dist := (dist st)[s := d0], pq := pq_push (pq st) (Entry d0 s)\<rparr>)
         else Inl OutOfBounds)
      else cpp_init_sources B src st)"

text \<open>main.c line 151:
  \<^verbatim>\<open>for(i=0;i<k;i++){ uint32_t s=sources[i]; dist[s]=0; heap_push(&h, (Entry){0,s}); }\<close>
  The sources of main.c are node ids only.\<close>

fun c_init_sources :: "nat list \<Rightarrow> c_state \<Rightarrow> error + c_state" where
  "c_init_sources [] st = Inr st"
| "c_init_sources (s # sources) st =
     (if s < length (dist st) then
        c_init_sources sources
          (st\<lparr>dist := (dist st)[s := 0], pq := heap_push (pq st) (Entry 0 s)\<rparr>)
      else Inl OutOfBounds)"

text \<open>The state at the start of a trial: \<^verbatim>\<open>fill(dist.begin(), dist.end(), ULLONG_MAX)\<close>,
  an empty queue, \<^verbatim>\<open>b_prime = ULLONG_MAX\<close>, counters 0 (main.cpp lines 130-132,
  main.c lines 149-152). The distance array has \<open>g.n\<close> entries.\<close>

definition start_state :: "Graph \<Rightarrow> ('c::len) word state" where
  "start_state g =
     \<lparr>dist = replicate (g_n g) ULLONG_MAX, pq = [], b_prime = ULLONG_MAX,
      popped = 0, heap_pushes = 0, edges_scanned = 0, trace = []\<rparr>"

definition cpp_init :: "Graph \<Rightarrow> (nat \<times> U64) list \<Rightarrow> U64 \<Rightarrow> error + cpp_state" where
  "cpp_init g src B = cpp_init_sources B src (start_state g)"

definition c_init :: "Graph \<Rightarrow> nat list \<Rightarrow> error + c_state" where
  "c_init g sources = c_init_sources sources (start_state g)"

text \<open>One trial: the body of \<^verbatim>\<open>for(int t=0;t<trials;t++)\<close> up to the end of the main
  loop.\<close>

definition cpp_trial :: "Graph \<Rightarrow> (nat \<times> U64) list \<Rightarrow> U64 \<Rightarrow> error + cpp_state" where
  "cpp_trial g src B =
     (case cpp_init g src B of Inl err \<Rightarrow> Inl err | Inr st \<Rightarrow> cpp_loop g B st)"

definition c_trial :: "Graph \<Rightarrow> nat list \<Rightarrow> U64 \<Rightarrow> error + c_state" where
  "c_trial g sources B =
     (case c_init g sources of Inl err \<Rightarrow> Inl err | Inr st \<Rightarrow> c_loop g B st)"

section \<open>Source selection\<close>

subsection \<open>External mode\<close>

text \<open>A file is modelled by the list of the unsigned numbers it holds
  (\<^verbatim>\<open>%llu\<close> fields); a field that is missing or not a number ends the list.

  \<^verbatim>\<open>read_sources_file\<close> of main.c (lines 97-106): the loop
  \<^verbatim>\<open>for(i=0;i<*k;i++){ if(fscanf(f,"%llu %llu",&s,&d0)!=2) return -3;
                        (*out)[i]=(uint32_t)s; }\<close>
  stores the node id and drops \<^verbatim>\<open>d0\<close>.\<close>

function c_read_source_records ::
  "nat \<Rightarrow> nat \<Rightarrow> U64 list \<Rightarrow> nat list \<Rightarrow> error + nat list" where
  "c_read_source_records k i toks out =
     (if i < k then
        (case toks of
           s # d0 # rest \<Rightarrow> c_read_source_records k (i + 1) rest (out @ [cast_u32 (unat s)])
         | _ \<Rightarrow> Inl ReadFailed)
      else Inr out)"
  by pat_completeness auto
termination
  by (relation "measure (\<lambda>(k, i, toks, out). k - i)") auto

declare c_read_source_records.simps [simp del]

definition c_read_sources_file :: "U64 list \<Rightarrow> error + nat list" where
  "c_read_sources_file toks =
     (case toks of
        [] \<Rightarrow> Inl ReadFailed
      | kk # rest \<Rightarrow> c_read_source_records (cast_u32 (unat kk)) 0 rest [])"

text \<open>main.cpp reads the file through \<^verbatim>\<open>std::ifstream\<close> and never tests the stream
  after it has been opened. The stream is modelled by the fields still to be
  read and its \<^verbatim>\<open>failbit\<close>. A field is a number that fits 64 bits (\<open>Num\<close>), a
  numeral that does not (\<open>Big\<close>), or something that is not a number (\<open>Bad\<close>).

  \<^verbatim>\<open>in >> x\<close> for \<^verbatim>\<open>U64 x\<close> is library code, modelled by its contract: on a
  stream that has failed, or that has no field left, \<open>x\<close> is left as it was and
  \<^verbatim>\<open>failbit\<close> is set; a number is stored; a numeral that is too large stores
  the largest value and sets \<^verbatim>\<open>failbit\<close>; any other field stores 0 and sets
  \<^verbatim>\<open>failbit\<close>. The value of a variable is an option: \<open>None\<close> is a variable that
  was declared without an initialiser and not written since.\<close>

datatype token = Num U64 | Big | Bad

type_synonym istream = "token list \<times> bool"

definition istream_get :: "istream \<Rightarrow> U64 option \<Rightarrow> U64 option \<times> istream" where
  "istream_get strm x =
     (case strm of (toks, failbit) \<Rightarrow>
        if failbit then (x, strm)
        else
          (case toks of
             [] \<Rightarrow> (x, ([], True))
           | Num y # rest \<Rightarrow> (Some y, (rest, False))
           | Big # rest \<Rightarrow> (Some ULLONG_MAX, (rest, True))
           | Bad # rest \<Rightarrow> (Some 0, (toks, True))))"

text \<open>main.cpp line 124:
  \<^verbatim>\<open>for(U32 i=0;i<k;i++){ U64 s,d0; in>>s>>d0; src.emplace_back((U32)s,(U64)d0); }\<close>
  \<open>s\<close> and \<open>d0\<close> are declared afresh in every round. When the stream gives out,
  \<^verbatim>\<open>emplace_back\<close> reads a variable that was never written.\<close>

function cpp_read_source_records ::
  "nat \<Rightarrow> nat \<Rightarrow> istream \<Rightarrow> (nat \<times> U64) list \<Rightarrow> error + (nat \<times> U64) list" where
  "cpp_read_source_records k i strm src =
     (if i < k then
        (case istream_get strm None of (s, strm1) \<Rightarrow>
         case istream_get strm1 None of (d0, strm2) \<Rightarrow>
           (case (s, d0) of
              (Some s', Some d0') \<Rightarrow>
                cpp_read_source_records k (i + 1) strm2 (src @ [(cast_u32 (unat s'), d0')])
            | _ \<Rightarrow> Inl Indeterminate))
      else Inr src)"
  by pat_completeness auto
termination
  by (relation "measure (\<lambda>(k, i, strm, src). k - i)") auto

declare cpp_read_source_records.simps [simp del]

text \<open>main.cpp line 123: \<^verbatim>\<open>U64 kk; in>>kk; k=(U32)kk; src.reserve(k);\<close> followed by
  the loop above, on a file that could be opened.\<close>

definition cpp_read_sources :: "token list \<Rightarrow> error + (nat \<times> U64) list" where
  "cpp_read_sources toks =
     (case istream_get (toks, False) None of (kk, strm) \<Rightarrow>
        (case kk of
           None \<Rightarrow> Inl Indeterminate
         | Some kk' \<Rightarrow> cpp_read_source_records (cast_u32 (unat kk')) 0 strm []))"

subsection \<open>Random mode\<close>

text \<open>\<^verbatim>\<open>pick_sources\<close> (main.cpp lines 78-83, main.c line 113):
  \<^verbatim>\<open>while(out.size()<k){ U32 s=(U32)(rng()%n);
                           if(!used[s]){ used[s]=1; out.push_back({s,0}); } }\<close>
  The generator (\<^verbatim>\<open>std::mt19937_64\<close>, \<^verbatim>\<open>rand()\<close>) is library code: \<open>rng t\<close> is the
  number its \<open>t\<close>-th call returns. The loop need not terminate, so the result is
  an option and \<open>None\<close> means that the function does not return. The two files
  differ only in what they store: main.c stores \<open>s\<close>, main.cpp the pair \<open>(s, 0)\<close>.\<close>

partial_function (option) pick_loop ::
  "(nat \<Rightarrow> nat) \<Rightarrow> nat \<Rightarrow> nat \<Rightarrow> nat \<Rightarrow> bool list \<Rightarrow> nat list \<Rightarrow> (error + nat list) option" where
  "pick_loop rng n k t used out =
     (if length out < k then
        (if n = 0 then Some (Inl DivisionByZero)
         else
           (let s = rng t mod n in
            if \<not> used ! s then pick_loop rng n k (t + 1) (used[s := True]) (out @ [s])
            else pick_loop rng n k (t + 1) used out))
      else Some (Inr out))"

definition c_pick_sources :: "(nat \<Rightarrow> nat) \<Rightarrow> nat \<Rightarrow> nat \<Rightarrow> (error + nat list) option" where
  "c_pick_sources rng n k = pick_loop rng n k 0 (replicate n False) []"

definition cpp_pick_sources ::
  "(nat \<Rightarrow> nat) \<Rightarrow> nat \<Rightarrow> nat \<Rightarrow> (error + (nat \<times> U64) list) option" where
  "cpp_pick_sources rng n k =
     map_option (map_sum id (map (\<lambda>s. (s, 0)))) (pick_loop rng n k 0 (replicate n False) [])"

section \<open>Building the graph from an edge list\<close>

subsection \<open>The loader of main.c\<close>

text \<open>\<^verbatim>\<open>read_graph_file\<close> (main.c lines 82-95), on the numbers of the file. The loop
  over the \<open>m\<close> edge records:
  \<^verbatim>\<open>out->edges[out->m++] = (Edge){ (uint32_t)vv, (uint64_t)ww };
   if((size_t)uu+1 <= n && out->head[uu+1] < out->m)
     out->head[uu+1] = (uint32_t)out->m;\<close>
  The edges are stored in file order; \<^verbatim>\<open>uu+1\<close> is computed in 64 bits.\<close>

function c_read_edge_records ::
  "nat \<Rightarrow> nat \<Rightarrow> nat \<Rightarrow> U64 list \<Rightarrow> nat list \<Rightarrow> Edge list \<Rightarrow> error + (nat list \<times> Edge list)" where
  "c_read_edge_records n m i toks hs es =
     (if i < m then
        (case toks of
           uu # vv # ww # rest \<Rightarrow>
             (let es' = es @ [Edge (cast_u32 (unat vv)) ww];
                  j = unat (uu + 1)
              in c_read_edge_records n m (i + 1) rest
                   (if j \<le> n \<and> hs ! j < length es' then hs[j := cast_u32 (length es')] else hs)
                   es')
         | _ \<Rightarrow> Inl ReadFailed)
      else Inr (hs, es))"
  by pat_completeness auto
termination
  by (relation "measure (\<lambda>(n, m, i, toks, hs, es). m - i)") auto

declare c_read_edge_records.simps [simp del]

text \<open>\<^verbatim>\<open>// Fix head to be non-decreasing
   for(size_t i=1;i<=n;i++){ if(out->head[i] < out->head[i-1])
                               out->head[i] = out->head[i-1]; }\<close>\<close>

fun c_fix_head :: "nat list \<Rightarrow> nat list \<Rightarrow> nat list" where
  "c_fix_head [] hs = hs"
| "c_fix_head (i # js) hs =
     c_fix_head js (if hs ! i < hs ! (i - 1) then hs[i := hs ! (i - 1)] else hs)"

text \<open>The whole function: the header \<open>n m\<close>, \<^verbatim>\<open>calloc(n+1, ...)\<close> for \<open>head\<close>, the
  records, the fix-up loop over \<open>i = 1, ..., n\<close>.\<close>

definition c_read_graph_file :: "U64 list \<Rightarrow> error + Graph" where
  "c_read_graph_file toks =
     (case toks of
        nn # mm # rest \<Rightarrow>
          (case c_read_edge_records (unat nn) (unat mm) 0 rest (replicate (unat nn + 1) 0) [] of
             Inl err \<Rightarrow> Inl err
           | Inr (hs, es) \<Rightarrow>
               Inr \<lparr>g_head = c_fix_head [1..<unat nn + 1] hs, g_edges = es,
                    g_n = cast_u32 (unat nn), g_m = length es\<rparr>)
      | _ \<Rightarrow> Inl ReadFailed)"

subsection \<open>The loader of main.cpp\<close>

text \<open>\<^verbatim>\<open>from_edge_list\<close> (main.cpp lines 21-28). First the edges are grouped by source:
  \<^verbatim>\<open>for(auto &t : elist){ tie(u,v,w)=t; if(u<n && v<n){ adj[u].push_back({v,w}); } }\<close>\<close>

fun group_by_source ::
  "nat \<Rightarrow> (nat \<times> nat \<times> U64) list \<Rightarrow> Edge list list \<Rightarrow> Edge list list" where
  "group_by_source n [] adj = adj"
| "group_by_source n ((u, v, w) # elist) adj =
     group_by_source n elist (if u < n \<and> v < n then adj[u := adj ! u @ [Edge v w]] else adj)"

text \<open>Then the groups are laid out one after the other:
  \<^verbatim>\<open>for(U32 u=0; u<n; ++u){ for(auto &e: adj[u]){ g.edges.push_back(e); ++m; }
                            g.head[u+1]=(U32)m; }\<close>\<close>

fun lay_out :: "Edge list list \<Rightarrow> nat list \<Rightarrow> Edge list \<Rightarrow> nat list \<times> Edge list" where
  "lay_out [] hs es = (hs, es)"
| "lay_out (a # adj) hs es = lay_out adj (hs @ [cast_u32 (length (es @ a))]) (es @ a)"

definition from_edge_list :: "nat \<Rightarrow> (nat \<times> nat \<times> U64) list \<Rightarrow> Graph" where
  "from_edge_list n elist =
     (case lay_out (group_by_source n elist (replicate n [])) [0] [] of
        (hs, es) \<Rightarrow> \<lparr>g_head = hs, g_edges = es, g_n = n, g_m = length es\<rparr>)"

text \<open>The out-edges of node \<open>u\<close> as the engine reads them: the edges in the range
  \<open>[head[u], head[u+1])\<close>.\<close>

definition out_edges :: "Graph \<Rightarrow> nat \<Rightarrow> Edge list" where
  "out_edges g u = map (\<lambda>ei. g_edges g ! ei) [g_head g ! u ..< g_head g ! (u + 1)]"

section \<open>Properties of the engine\<close>

subsection \<open>Well-formed inputs\<close>

text \<open>What the engine needs of a graph to stay inside its arrays: \<open>head\<close> has
  \<open>n + 1\<close> entries, every edge range ends inside \<open>edges\<close>, every target is a node.\<close>

definition wf_graph :: "Graph \<Rightarrow> bool" where
  "wf_graph g \<longleftrightarrow>
     length (g_head g) = g_n g + 1 \<and>
     list_all (\<lambda>u. g_head g ! (u + 1) \<le> length (g_edges g)) [0..<g_n g] \<and>
     list_all (\<lambda>e. edge_to e < g_n g) (g_edges g)"

definition push_ok :: "(Entry list \<Rightarrow> Entry \<Rightarrow> Entry list) \<Rightarrow> bool" where
  "push_ok push \<longleftrightarrow> (\<forall>q e. mset (push q e) = add_mset e (mset q))"

lemma push_ok_pq_push: "push_ok pq_push"
  by (simp add: push_ok_def pq_push_def)

lemma push_ok_heap_push: "push_ok heap_push"
  by (simp add: push_ok_def mset_heap_push)

lemma push_ok_set: "push_ok push \<Longrightarrow> set (push q e) = insert e (set q)"
  by (metis push_ok_def set_mset_add_mset_insert set_mset_mset)

lemma wf_graph_range:
  assumes "wf_graph g" "u < g_n g" "ei \<in> set [g_head g ! u ..< g_head g ! (u + 1)]"
  shows "ei < length (g_edges g)" "edge_to (g_edges g ! ei) < g_n g"
proof -
  from assms(1,2) have "g_head g ! (u + 1) \<le> length (g_edges g)"
    by (simp add: wf_graph_def list_all_iff)
  with assms(3) show 1: "ei < length (g_edges g)" by simp
  from assms(1) 1 show "edge_to (g_edges g ! ei) < g_n g"
    by (simp add: wf_graph_def list_all_iff)
qed

subsection \<open>Proof rules for the loops\<close>

lemma relax_edges_rule:
  assumes "P [] st"
    and "\<And>pre ei s. P pre s \<Longrightarrow> ei \<in> set eis \<Longrightarrow>
            \<exists>s'. relax_edge push g B d0 ei s = Inr s' \<and> P (pre @ [ei]) s'"
  shows "\<exists>st'. relax_edges push g B d0 eis st = Inr st' \<and> P eis st'"
proof -
  have "\<exists>st'. relax_edges push g B d0 todo s = Inr st' \<and> P (pre @ todo) st'"
    if "P pre s" "set todo \<subseteq> set eis" for pre todo s
    using that
  proof (induction todo arbitrary: pre s)
    case Nil
    then show ?case by simp
  next
    case (Cons ei todo)
    from Cons.prems assms(2)[of pre s ei] obtain s1 where
      1: "relax_edge push g B d0 ei s = Inr s1" and 2: "P (pre @ [ei]) s1" by auto
    from Cons.IH[OF 2] Cons.prems(2) obtain st' where
      "relax_edges push g B d0 todo s1 = Inr st'" "P ((pre @ [ei]) @ todo) st'" by auto
    with 1 show ?case by simp
  qed
  from this[of "[]" st eis] assms(1) show ?thesis by simp
qed

lemma cpp_loop_rule:
  assumes "P st"
    and "\<And>s. P s \<Longrightarrow> pq s \<noteq> [] \<Longrightarrow>
       \<exists>c s'. visit pq_push g B (pq_top (pq s)) (s\<lparr>pq := pq_pop (pq s)\<rparr>) = Inr (c, s') \<and>
              (c \<longrightarrow> P s') \<and> (\<not> c \<longrightarrow> Q s')"
    and "\<And>s. P s \<Longrightarrow> pq s = [] \<Longrightarrow> Q s"
  shows "\<exists>st'. cpp_loop g B st = Inr st' \<and> Q st'"
  using assms
proof (induction g B st rule: cpp_loop.induct)
  case (1 g B st)
  note step = "1.prems"(2) and fin = "1.prems"(3)
  show ?case
  proof (cases "pq st = []")
    case True
    with fin[OF "1.prems"(1)] show ?thesis by (subst cpp_loop.simps) simp
  next
    case False
    from step[OF "1.prems"(1) False] obtain c s' where
      v: "visit pq_push g B (pq_top (pq st)) (st\<lparr>pq := pq_pop (pq st)\<rparr>) = Inr (c, s')"
      and cp: "c \<longrightarrow> P s'" and cq: "\<not> c \<longrightarrow> Q s'" by blast
    show ?thesis
    proof (cases c)
      case True
      with cp have "P s'" by simp
      from "1.IH"[OF False v refl True this step fin] obtain st' where
        "cpp_loop g B s' = Inr st'" "Q st'" by blast
      with v True False show ?thesis by (subst cpp_loop.simps) simp
    next
      case F: False
      with cq v False show ?thesis by (subst cpp_loop.simps) simp
    qed
  qed
qed

lemma c_loop_rule:
  assumes "P st"
    and "\<And>s cur h'. P s \<Longrightarrow> heap_pop (pq s) = Some (cur, h') \<Longrightarrow>
       \<exists>c s'. visit heap_push g B cur (s\<lparr>pq := h'\<rparr>) = Inr (c, s') \<and>
              (c \<longrightarrow> P s') \<and> (\<not> c \<longrightarrow> Q s')"
    and "\<And>s. P s \<Longrightarrow> pq s = [] \<Longrightarrow> Q s"
  shows "\<exists>st'. c_loop g B st = Inr st' \<and> Q st'"
  using assms
proof (induction g B st rule: c_loop.induct)
  case (1 g B st)
  note step = "1.prems"(2) and fin = "1.prems"(3)
  show ?case
  proof (cases "heap_pop (pq st)")
    case None
    then have "pq st = []" by (simp add: heap_pop_def split: if_splits)
    with fin[OF "1.prems"(1)] None show ?thesis by (subst c_loop.simps) simp
  next
    case (Some a)
    obtain cur h' where a: "a = (cur, h')" by (cases a)
    from step[OF "1.prems"(1) Some[unfolded a]] obtain c s' where
      v: "visit heap_push g B cur (st\<lparr>pq := h'\<rparr>) = Inr (c, s')"
      and cp: "c \<longrightarrow> P s'" and cq: "\<not> c \<longrightarrow> Q s'" by blast
    show ?thesis
    proof (cases c)
      case True
      with cp have "P s'" by simp
      from "1.IH"[OF Some a[symmetric] v refl True this step fin] obtain st' where
        "c_loop g B s' = Inr st'" "Q st'" by blast
      with v True Some a show ?thesis by (subst c_loop.simps) simp
    next
      case F: False
      with cq v Some a show ?thesis by (subst c_loop.simps) simp
    qed
  qed
qed

lemma relax_edge_cases:
  fixes st :: "('c::len) word state"
  assumes "ei < length (g_edges g)" "edge_to (g_edges g ! ei) < length (dist st)"
  obtains
    (improve) s' where "relax_edge push g B d0 ei st = Inr s'"
      "d0 + edge_w (g_edges g ! ei) < dist st ! edge_to (g_edges g ! ei)"
      "d0 + edge_w (g_edges g ! ei) < B"
      "dist s' = (dist st)[edge_to (g_edges g ! ei) := d0 + edge_w (g_edges g ! ei)]"
      "pq s' = push (pq st) (Entry (d0 + edge_w (g_edges g ! ei)) (edge_to (g_edges g ! ei)))"
      "b_prime s' = b_prime st" "trace s' = trace st" "popped s' = popped st"
  | (beyond) s' where "relax_edge push g B d0 ei st = Inr s'"
      "B \<le> d0 + edge_w (g_edges g ! ei)"
      "dist s' = dist st" "pq s' = pq st"
      "b_prime s' = min (d0 + edge_w (g_edges g ! ei)) (b_prime st)"
      "trace s' = trace st @ [Cand (d0 + edge_w (g_edges g ! ei))]" "popped s' = popped st"
  | (keep) s' where "relax_edge push g B d0 ei st = Inr s'"
      "d0 + edge_w (g_edges g ! ei) < B"
      "dist st ! edge_to (g_edges g ! ei) \<le> d0 + edge_w (g_edges g ! ei)"
      "dist s' = dist st" "pq s' = pq st" "b_prime s' = b_prime st" "trace s' = trace st"
      "popped s' = popped st"
proof -
  let ?nd = "d0 + edge_w (g_edges g ! ei)"
  let ?t = "edge_to (g_edges g ! ei)"
  consider "?nd < dist st ! ?t \<and> ?nd < B" | "B \<le> ?nd" | "?nd < B \<and> dist st ! ?t \<le> ?nd"
    by (meson not_le_imp_less)
  then show thesis
  proof cases
    case 1
    with assms show ?thesis
      by (intro improve[of "projr (relax_edge push g B d0 ei st)"])
         (auto simp: relax_edge_def Let_def)
  next
    case 2
    with assms show ?thesis
      by (intro beyond[of "projr (relax_edge push g B d0 ei st)"])
         (auto simp: relax_edge_def Let_def min_def)
  next
    case 3
    with assms show ?thesis
      by (intro keep[of "projr (relax_edge push g B d0 ei st)"])
         (auto simp: relax_edge_def Let_def)
  qed
qed

lemma visit_rule:
  fixes st :: "('c::len) word state"
  assumes "e_v cur < length (dist st)" and "e_v cur + 1 < length (g_head g)"
    and stale: "\<And>s'. e_d cur \<noteq> dist st ! e_v cur \<Longrightarrow> dist s' = dist st \<Longrightarrow> pq s' = pq st \<Longrightarrow>
       b_prime s' = b_prime st \<Longrightarrow> popped s' = popped st \<Longrightarrow>
       trace s' = trace st @ [Stale (e_d cur) (e_v cur)] \<Longrightarrow> R True s'"
    and brk: "\<And>s'. e_d cur = dist st ! e_v cur \<Longrightarrow> B \<le> e_d cur \<Longrightarrow> dist s' = dist st \<Longrightarrow>
       pq s' = pq st \<Longrightarrow> b_prime s' = e_d cur \<Longrightarrow> popped s' = popped st \<Longrightarrow>
       trace s' = trace st @ [Fresh (e_d cur) (e_v cur)] \<Longrightarrow> R False s'"
    and relax: "\<And>s1. e_d cur = dist st ! e_v cur \<Longrightarrow> e_d cur < B \<Longrightarrow> dist s1 = dist st \<Longrightarrow>
       pq s1 = pq st \<Longrightarrow> b_prime s1 = b_prime st \<Longrightarrow> popped s1 = popped st + 1 \<Longrightarrow>
       trace s1 = trace st @ [Fresh (e_d cur) (e_v cur)] \<Longrightarrow>
       \<exists>s'. relax_edges push g B (e_d cur)
               [g_head g ! e_v cur ..< g_head g ! (e_v cur + 1)] s1 = Inr s' \<and> R True s'"
  shows "\<exists>c s'. visit push g B cur st = Inr (c, s') \<and> R c s'"
proof -
  consider "e_d cur \<noteq> dist st ! e_v cur" | "e_d cur = dist st ! e_v cur" "B \<le> e_d cur"
    | "e_d cur = dist st ! e_v cur" "e_d cur < B" by (meson not_le_imp_less)
  then show ?thesis
  proof cases
    case 1
    with assms(1) stale[of "st\<lparr>trace := trace st @ [Stale (e_d cur) (e_v cur)]\<rparr>"]
    show ?thesis by (auto simp: visit_def)
  next
    case 2
    with assms(1)
      brk[of "st\<lparr>trace := trace st @ [Fresh (e_d cur) (e_v cur)], b_prime := e_d cur\<rparr>"]
    show ?thesis by (auto simp: visit_def)
  next
    case 3
    let ?s1 = "st\<lparr>trace := trace st @ [Fresh (e_d cur) (e_v cur)], popped := popped st + 1\<rparr>"
    from relax[of ?s1] 3 obtain s' where
      "relax_edges push g B (e_d cur) [g_head g ! e_v cur ..< g_head g ! (e_v cur + 1)] ?s1 = Inr s'"
      "R True s'" by auto
    with assms(1,2) 3 show ?thesis by (auto simp: visit_def Let_def)
  qed
qed

subsection \<open>The engine stays inside its arrays\<close>

definition st_ok :: "Graph \<Rightarrow> ('c::len) word state \<Rightarrow> bool" where
  "st_ok g st \<longleftrightarrow> length (dist st) = g_n g \<and> (\<forall>e \<in> set (pq st). e_v e < g_n g)"

lemma relax_edges_ok:
  fixes st :: "('c::len) word state"
  assumes wf: "wf_graph g" and push: "push_ok push" and v: "v < g_n g"
    and eis: "set eis \<subseteq> set [g_head g ! v ..< g_head g ! (v + 1)]"
    and ok: "st_ok g st"
  shows "\<exists>s'. relax_edges push g B d0 eis st = Inr s' \<and> st_ok g s'"
proof -
  have "\<exists>s'. relax_edges push g B d0 eis st = Inr s' \<and> (\<lambda>_. st_ok g) eis s'"
  proof (rule relax_edges_rule)
    show "st_ok g st" by (rule ok)
  next
    fix pre :: "nat list" and ei and s :: "'c word state"
    assume s: "st_ok g s" and ei: "ei \<in> set eis"
    from ei eis have r: "ei \<in> set [g_head g ! v ..< g_head g ! (v + 1)]" by blast
    note b = wf_graph_range[OF wf v r]
    from s b have t: "edge_to (g_edges g ! ei) < length (dist s)" by (simp add: st_ok_def)
    show "\<exists>s'. relax_edge push g B d0 ei s = Inr s' \<and> st_ok g s'"
      using b(1) t
    proof (cases rule: relax_edge_cases[where push = push and B = B and ?d0.0 = d0])
      case (improve s')
      with s b push_ok_set[OF push] show ?thesis by (auto simp: st_ok_def)
    next
      case (beyond s')
      with s show ?thesis by (auto simp: st_ok_def)
    next
      case (keep s')
      with s show ?thesis by (auto simp: st_ok_def)
    qed
  qed
  then show ?thesis by simp
qed

lemma visit_ok:
  fixes st :: "('c::len) word state"
  assumes wf: "wf_graph g" and push: "push_ok push" and ok: "st_ok g st" and cur: "e_v cur < g_n g"
  shows "\<exists>c s'. visit push g B cur st = Inr (c, s') \<and> st_ok g s'"
proof -
  from ok cur have 1: "e_v cur < length (dist st)" by (simp add: st_ok_def)
  from wf cur have 2: "e_v cur + 1 < length (g_head g)" by (simp add: wf_graph_def)
  have "\<exists>c s'. visit push g B cur st = Inr (c, s') \<and> (\<lambda>_. st_ok g) c s'"
  proof (rule visit_rule[OF 1 2], goal_cases)
    case (1 s')
    with ok show ?case by (simp add: st_ok_def)
  next
    case (2 s')
    with ok show ?case by (simp add: st_ok_def)
  next
    case (3 s1)
    with ok have "st_ok g s1" by (simp add: st_ok_def)
    from relax_edges_ok[OF wf push cur subset_refl this] show ?case .
  qed
  then show ?thesis by simp
qed

text \<open>What the pop of each implementation provides.\<close>

lemma cpp_pop_ok:
  fixes s :: cpp_state
  assumes "st_ok g s" "pq s \<noteq> []"
  shows "st_ok g (s\<lparr>pq := pq_pop (pq s)\<rparr>)" "e_v (pq_top (pq s)) < g_n g"
proof -
  from mset_pq_pop[OF assms(2)] have "set (pq s) = insert (pq_top (pq s)) (set (pq_pop (pq s)))"
    by (metis set_mset_add_mset_insert set_mset_mset)
  with assms(1) show "st_ok g (s\<lparr>pq := pq_pop (pq s)\<rparr>)" "e_v (pq_top (pq s)) < g_n g"
    by (auto simp: st_ok_def)
qed

lemma heap_pop_mset:
  assumes "heap_pop h = Some (cur, h')"
  shows "mset h = add_mset cur (mset h')"
proof -
  from assms have "h \<noteq> []" by (auto simp: heap_pop_def split: if_splits)
  from heap_pop_nonempty[OF this] assms show ?thesis by auto
qed

lemma heap_pop_set:
  assumes "heap_pop h = Some (cur, h')"
  shows "set h = insert cur (set h')"
  using heap_pop_mset[OF assms] by (metis set_mset_add_mset_insert set_mset_mset)

lemma c_pop_ok:
  fixes s :: c_state
  assumes "st_ok g s" "heap_pop (pq s) = Some (cur, h')"
  shows "st_ok g (s\<lparr>pq := h'\<rparr>)" "e_v cur < g_n g"
  using assms(1) heap_pop_set[OF assms(2)] by (auto simp: st_ok_def)

subsection \<open>Initialisation\<close>

text \<open>The sources that pass the guard \<^verbatim>\<open>d0<B\<close> of main.cpp.\<close>

definition active :: "U64 \<Rightarrow> (nat \<times> U64) list \<Rightarrow> (nat \<times> U64) list" where
  "active B src = filter (\<lambda>(s, d0). d0 < B) src"

definition sources_ok :: "Graph \<Rightarrow> (nat \<times> U64) list \<Rightarrow> bool" where
  "sources_ok g src \<longleftrightarrow> list_all (\<lambda>(s, d0). s < g_n g) src"

lemma ULLONG_MAX_top [simp]: "x \<le> ULLONG_MAX"
proof -
  have m: "ULLONG_MAX = - 1" by (simp add: ULLONG_MAX_def)
  show ?thesis unfolding m by (rule word_n1_ge)
qed

lemma less_not_ULLONG_MAX: "x < B \<Longrightarrow> x \<noteq> ULLONG_MAX"
  using ULLONG_MAX_top[of B] by (auto simp: not_less[symmetric] simp del: ULLONG_MAX_top)

lemma cpp_init_sources_spec:
  assumes "list_all (\<lambda>(s, d0). s < length (dist st)) src"
  shows "\<exists>st'. cpp_init_sources B src st = Inr st' \<and>
     length (dist st') = length (dist st) \<and>
     mset (pq st') = mset (map (\<lambda>(s, d0). Entry d0 s) (active B src)) + mset (pq st) \<and>
     b_prime st' = b_prime st \<and> popped st' = popped st \<and> trace st' = trace st \<and>
     (\<forall>i. i \<notin> fst ` set (active B src) \<longrightarrow> dist st' ! i = dist st ! i) \<and>
     (\<forall>i \<in> fst ` set (active B src). \<exists>d0. (i, d0) \<in> set (active B src) \<and> dist st' ! i = d0) \<and>
     (distinct (map fst src) \<longrightarrow> (\<forall>(s, d0) \<in> set (active B src). dist st' ! s = d0))"
  using assms
proof (induction src arbitrary: st)
  case Nil
  then show ?case by (simp add: active_def)
next
  case (Cons p src)
  obtain s d0 where p: "p = (s, d0)" by (cases p)
  show ?case
  proof (cases "d0 < B")
    case False
    with Cons.IH[of st] Cons.prems p show ?thesis
      by (auto simp: active_def)
  next
    case True
    let ?st1 = "st\<lparr>dist := (dist st)[s := d0], pq := pq_push (pq st) (Entry d0 s)\<rparr>"
    from Cons.prems p have sl: "s < length (dist st)" by simp
    from Cons.prems have "list_all (\<lambda>(s, d0). s < length (dist ?st1)) src" by simp
    from Cons.IH[OF this] obtain st' where
      r: "cpp_init_sources B src ?st1 = Inr st'"
      and len: "length (dist st') = length (dist ?st1)"
      and q: "mset (pq st') = mset (map (\<lambda>(s, d0). Entry d0 s) (active B src)) + mset (pq ?st1)"
      and fr: "b_prime st' = b_prime ?st1" "popped st' = popped ?st1" "trace st' = trace ?st1"
      and same: "\<forall>i. i \<notin> fst ` set (active B src) \<longrightarrow> dist st' ! i = dist ?st1 ! i"
      and some: "\<forall>i \<in> fst ` set (active B src).
                   \<exists>d0. (i, d0) \<in> set (active B src) \<and> dist st' ! i = d0"
      and dst: "distinct (map fst src) \<longrightarrow> (\<forall>(s, d0) \<in> set (active B src). dist st' ! s = d0)"
      by blast
    have act: "active B (p # src) = (s, d0) # active B src"
      using True p by (simp add: active_def)
    have 1: "cpp_init_sources B (p # src) st = Inr st'"
      using r True sl p by simp
    have 2: "mset (pq st') = mset (map (\<lambda>(s, d0). Entry d0 s) (active B (p # src))) + mset (pq st)"
      using q act by (simp add: pq_push_def)
    have 3: "\<forall>i. i \<notin> fst ` set (active B (p # src)) \<longrightarrow> dist st' ! i = dist st ! i"
      using same act by auto
    have 4: "\<forall>i \<in> fst ` set (active B (p # src)).
                   \<exists>d0. (i, d0) \<in> set (active B (p # src)) \<and> dist st' ! i = d0"
    proof
      fix i assume i: "i \<in> fst ` set (active B (p # src))"
      show "\<exists>d0. (i, d0) \<in> set (active B (p # src)) \<and> dist st' ! i = d0"
      proof (cases "i \<in> fst ` set (active B src)")
        case True
        with some act show ?thesis by auto
      next
        case False
        with i act have "i = s" by auto
        moreover from False same have "dist st' ! i = dist ?st1 ! i" by blast
        ultimately show ?thesis using act sl by auto
      qed
    qed
    have 5: "distinct (map fst (p # src)) \<longrightarrow>
               (\<forall>(s, d0) \<in> set (active B (p # src)). dist st' ! s = d0)"
    proof
      assume d: "distinct (map fst (p # src))"
      then have "s \<notin> fst ` set src" using p by simp
      then have "s \<notin> fst ` set (active B src)" by (auto simp: active_def)
      with same have "dist st' ! s = dist ?st1 ! s" by blast
      with sl have "dist st' ! s = d0" by simp
      with dst d act show "\<forall>(s, d0) \<in> set (active B (p # src)). dist st' ! s = d0" by auto
    qed
    from 1 2 3 4 5 len fr show ?thesis by simp
  qed
qed

lemma c_init_sources_spec:
  assumes "list_all (\<lambda>s. s < length (dist st)) sources"
  shows "\<exists>st'. c_init_sources sources st = Inr st' \<and>
     length (dist st') = length (dist st) \<and>
     mset (pq st') = mset (map (Entry 0) sources) + mset (pq st) \<and>
     b_prime st' = b_prime st \<and> popped st' = popped st \<and> trace st' = trace st \<and>
     (\<forall>i. i \<notin> set sources \<longrightarrow> dist st' ! i = dist st ! i) \<and>
     (\<forall>i \<in> set sources. dist st' ! i = 0) \<and>
     (is_heap (pq st) \<longrightarrow> is_heap (pq st'))"
  using assms
proof (induction sources arbitrary: st)
  case Nil
  then show ?case by simp
next
  case (Cons s sources)
  let ?st1 = "st\<lparr>dist := (dist st)[s := 0], pq := heap_push (pq st) (Entry 0 s)\<rparr>"
  from Cons.prems have sl: "s < length (dist st)" by simp
  from Cons.prems have "list_all (\<lambda>s. s < length (dist ?st1)) sources" by simp
  from Cons.IH[OF this] obtain st' where
    r: "c_init_sources sources ?st1 = Inr st'"
    and len: "length (dist st') = length (dist ?st1)"
    and q: "mset (pq st') = mset (map (Entry 0) sources) + mset (pq ?st1)"
    and fr: "b_prime st' = b_prime ?st1" "popped st' = popped ?st1" "trace st' = trace ?st1"
    and same: "\<forall>i. i \<notin> set sources \<longrightarrow> dist st' ! i = dist ?st1 ! i"
    and zero: "\<forall>i \<in> set sources. dist st' ! i = 0"
    and hp: "is_heap (pq ?st1) \<longrightarrow> is_heap (pq st')"
    by blast
  have 1: "c_init_sources (s # sources) st = Inr st'" using r sl by simp
  have 2: "mset (pq st') = mset (map (Entry 0) (s # sources)) + mset (pq st)"
    using q by (simp add: mset_heap_push)
  have 3: "\<forall>i. i \<notin> set (s # sources) \<longrightarrow> dist st' ! i = dist st ! i"
    using same by auto
  have 4: "\<forall>i \<in> set (s # sources). dist st' ! i = 0"
  proof
    fix i assume i: "i \<in> set (s # sources)"
    show "dist st' ! i = 0"
    proof (cases "i \<in> set sources")
      case True
      with zero show ?thesis by blast
    next
      case False
      with i have "i = s" by simp
      with False same sl show ?thesis by simp
    qed
  qed
  have 5: "is_heap (pq st) \<longrightarrow> is_heap (pq st')"
    using hp by (simp add: is_heap_heap_push)
  from 1 2 3 4 5 len fr show ?case by simp
qed

lemma start_state_simps [simp]:
  "dist (start_state g) = replicate (g_n g) ULLONG_MAX" "pq (start_state g) = []"
  "b_prime (start_state g) = ULLONG_MAX" "popped (start_state g) = 0"
  "trace (start_state g) = []"
  by (simp_all add: start_state_def)

lemma cpp_init_spec:
  assumes "sources_ok g src"
  shows "\<exists>st. cpp_init g src B = Inr st \<and> length (dist st) = g_n g \<and>
     mset (pq st) = mset (map (\<lambda>(s, d0). Entry d0 s) (active B src)) \<and>
     b_prime st = ULLONG_MAX \<and> popped st = 0 \<and> trace st = [] \<and>
     (\<forall>i < g_n g. i \<notin> fst ` set (active B src) \<longrightarrow> dist st ! i = ULLONG_MAX) \<and>
     (\<forall>i \<in> fst ` set (active B src). \<exists>d0. (i, d0) \<in> set (active B src) \<and> dist st ! i = d0) \<and>
     (distinct (map fst src) \<longrightarrow> (\<forall>(s, d0) \<in> set (active B src). dist st ! s = d0))"
proof -
  from assms have "list_all (\<lambda>(s, d0). s < length (dist (start_state g :: cpp_state))) src"
    by (simp add: sources_ok_def)
  from cpp_init_sources_spec[OF this, of B] show ?thesis
    unfolding cpp_init_def by (auto simp: split_def)
qed

lemma c_init_spec:
  assumes "list_all (\<lambda>s. s < g_n g) sources"
  shows "\<exists>st. c_init g sources = Inr st \<and> length (dist st) = g_n g \<and>
     mset (pq st) = mset (map (Entry 0) sources) \<and>
     b_prime st = ULLONG_MAX \<and> popped st = 0 \<and> trace st = [] \<and>
     (\<forall>i < g_n g. i \<notin> set sources \<longrightarrow> dist st ! i = ULLONG_MAX) \<and>
     (\<forall>i \<in> set sources. dist st ! i = 0) \<and> is_heap (pq st)"
proof -
  from assms have "list_all (\<lambda>s. s < length (dist (start_state g :: c_state))) sources"
    by simp
  from c_init_sources_spec[OF this] show ?thesis
    unfolding c_init_def by (auto simp: is_heap_Nil)
qed


subsection \<open>Only distances below the bound are written\<close>

lemma relax_edge_dist_all:
  assumes "relax_edge push g B d0 ei st = Inr s'" "\<forall>x \<in> set (dist st). P x" "\<forall>x. x < B \<longrightarrow> P x"
  shows "\<forall>x \<in> set (dist s'). P x"
  using assms
  by (auto simp: relax_edge_def Let_def split: if_splits dest!: set_update_subset_insert[THEN subsetD])

lemma relax_edges_dist_all:
  assumes "relax_edges push g B d0 eis st = Inr s'" "\<forall>x \<in> set (dist st). P x" "\<forall>x. x < B \<longrightarrow> P x"
  shows "\<forall>x \<in> set (dist s'). P x"
  using assms
proof (induction eis arbitrary: st)
  case Nil
  then show ?case by simp
next
  case (Cons ei eis)
  from Cons.prems(1) obtain s1 where 1: "relax_edge push g B d0 ei st = Inr s1"
    and 2: "relax_edges push g B d0 eis s1 = Inr s'" by (auto split: sum.splits)
  from relax_edge_dist_all[OF 1 Cons.prems(2,3)] Cons.IH[OF 2 _ Cons.prems(3)]
  show ?case by blast
qed

lemma visit_dist_all:
  assumes "visit push g B cur st = Inr (c, s')" "\<forall>x \<in> set (dist st). P x" "\<forall>x. x < B \<longrightarrow> P x"
  shows "\<forall>x \<in> set (dist s'). P x"
proof -
  have "\<forall>x \<in> set (dist s'). P x"
    if "relax_edges push g B d0 eis (st\<lparr>trace := tr, popped := p\<rparr>) = Inr s'" for d0 eis tr p
    using relax_edges_dist_all[OF that _ assms(3)] assms(2) by simp
  with assms(1,2) show ?thesis
    by (auto simp: visit_def Let_def split: if_splits sum.splits)
qed

lemma cpp_loop_dist_all:
  fixes st :: cpp_state
  assumes wf: "wf_graph g" and ok: "st_ok g st"
    and P: "\<forall>x \<in> set (dist st). P x" "\<forall>x. x < B \<longrightarrow> P x"
  shows "\<exists>st'. cpp_loop g B st = Inr st' \<and> (\<forall>x \<in> set (dist st'). P x)"
proof (rule cpp_loop_rule[where P = "\<lambda>s. st_ok g s \<and> (\<forall>x \<in> set (dist s). P x)"])
  show "st_ok g st \<and> (\<forall>x \<in> set (dist st). P x)" using ok P(1) by simp
next
  fix s :: cpp_state
  assume a: "st_ok g s \<and> (\<forall>x \<in> set (dist s). P x)" and ne: "pq s \<noteq> []"
  note po = cpp_pop_ok[OF conjunct1[OF a] ne]
  from visit_ok[OF wf push_ok_pq_push po, of B] obtain c s' where
    v: "visit pq_push g B (pq_top (pq s)) (s\<lparr>pq := pq_pop (pq s)\<rparr>) = Inr (c, s')"
    and ok': "st_ok g s'" by blast
  from visit_dist_all[OF v _ P(2)] a have "\<forall>x \<in> set (dist s'). P x" by simp
  with v ok' show "\<exists>c s'. visit pq_push g B (pq_top (pq s)) (s\<lparr>pq := pq_pop (pq s)\<rparr>) = Inr (c, s') \<and>
      (c \<longrightarrow> st_ok g s' \<and> (\<forall>x \<in> set (dist s'). P x)) \<and> (\<not> c \<longrightarrow> (\<forall>x \<in> set (dist s'). P x))"
    by blast
qed simp

lemma c_loop_dist_all:
  fixes st :: c_state
  assumes wf: "wf_graph g" and ok: "st_ok g st"
    and P: "\<forall>x \<in> set (dist st). P x" "\<forall>x. x < B \<longrightarrow> P x"
  shows "\<exists>st'. c_loop g B st = Inr st' \<and> (\<forall>x \<in> set (dist st'). P x)"
proof (rule c_loop_rule[where P = "\<lambda>s. st_ok g s \<and> (\<forall>x \<in> set (dist s). P x)"])
  show "st_ok g st \<and> (\<forall>x \<in> set (dist st). P x)" using ok P(1) by simp
next
  fix s :: c_state and cur h'
  assume a: "st_ok g s \<and> (\<forall>x \<in> set (dist s). P x)" and hp: "heap_pop (pq s) = Some (cur, h')"
  note po = c_pop_ok[OF conjunct1[OF a] hp]
  from visit_ok[OF wf push_ok_heap_push po, of B] obtain c s' where
    v: "visit heap_push g B cur (s\<lparr>pq := h'\<rparr>) = Inr (c, s')"
    and ok': "st_ok g s'" by blast
  from visit_dist_all[OF v _ P(2)] a have "\<forall>x \<in> set (dist s'). P x" by simp
  with v ok' show "\<exists>c s'. visit heap_push g B cur (s\<lparr>pq := h'\<rparr>) = Inr (c, s') \<and>
      (c \<longrightarrow> st_ok g s' \<and> (\<forall>x \<in> set (dist s'). P x)) \<and> (\<not> c \<longrightarrow> (\<forall>x \<in> set (dist s'). P x))"
    by blast
qed simp

lemma cpp_init_st_ok:
  assumes "sources_ok g src" "cpp_init g src B = Inr st"
  shows "st_ok g st"
proof -
  from cpp_init_spec[OF assms(1), of B] assms(2) have len: "length (dist st) = g_n g"
    and q: "mset (pq st) = mset (map (\<lambda>(s, d0). Entry d0 s) (active B src))" by auto
  from q have "set (pq st) = (\<lambda>(s, d0). Entry d0 s) ` set (active B src)"
    by (metis set_map set_mset_mset)
  with assms(1) len show ?thesis
    by (auto simp: st_ok_def sources_ok_def list_all_iff active_def)
qed

lemma c_init_st_ok:
  assumes "list_all (\<lambda>s. s < g_n g) sources" "c_init g sources = Inr st"
  shows "st_ok g st"
proof -
  from c_init_spec[OF assms(1)] assms(2) have len: "length (dist st) = g_n g"
    and q: "mset (pq st) = mset (map (Entry 0) sources)" by auto
  from q have "set (pq st) = Entry 0 ` set sources" by (metis set_map set_mset_mset)
  with assms(1) len show ?thesis by (auto simp: st_ok_def list_all_iff)
qed


subsection \<open>Source selection\<close>

lemma count_update_True:
  "s < length used \<Longrightarrow> \<not> used ! s \<Longrightarrow>
     length (filter id (used[s := True])) = Suc (length (filter id used))"
proof (induction used arbitrary: s)
  case Nil
  then show ?case by simp
next
  case (Cons b used)
  then show ?case by (cases s) auto
qed

lemma pick_loop_never_returns:
  assumes ret: "pick_loop rng n k t used out = Some y"
  shows "\<not> (n < k \<and> 0 < n \<and> length used = n \<and> length out = length (filter id used))"
proof (rule pick_loop.raw_induct[rotated, OF ret, where
      P = "\<lambda>rng n k t used out y.
             \<not> (n < k \<and> 0 < n \<and> length used = n \<and> length out = length (filter id used))"],
      goal_cases)
  case (1 f rng n k t used out y)
  show ?case
  proof
    assume a: "n < k \<and> 0 < n \<and> length used = n \<and> length out = length (filter id used)"
    have "length (filter id used) \<le> length used" by simp
    with a have lt: "length out < k" by simp
    let ?s = "rng t mod n"
    from a have sl: "?s < length used" by simp
    show False
    proof (cases "used ! ?s")
      case True
      with 1(2) lt a have "f rng n k (t + 1) used out = Some y"
        by (simp add: Let_def)
      from 1(1)[OF this] a show False by simp
    next
      case False
      with 1(2) lt a have r: "f rng n k (t + 1) (used[?s := True]) (out @ [?s]) = Some y"
        by (simp add: Let_def)
      have "length (out @ [?s]) = length (filter id (used[?s := True]))"
        using count_update_True[OF sl False] a by simp
      with 1(1)[OF r] a show False by simp
    qed
  qed
qed

lemma pick_loop_None:
  assumes "n < k" "0 < n"
  shows "pick_loop rng n k 0 (replicate n False) [] = None"
proof (cases "pick_loop rng n k 0 (replicate n False) []")
  case None
  then show ?thesis .
next
  case (Some y)
  from pick_loop_never_returns[OF Some] assms show ?thesis by simp
qed

lemma pick_loop_zero: "0 < k \<Longrightarrow> pick_loop rng 0 k 0 [] [] = Some (Inl DivisionByZero)"
  by (subst pick_loop.simps) simp

lemma pick_loop_returns:
  assumes n: "0 < n" and fair: "k \<le> card ((\<lambda>t. rng t mod n) ` {..<T})"
  shows "t \<le> T \<Longrightarrow> length used = n \<Longrightarrow> distinct out \<Longrightarrow>
         set out = (\<lambda>t. rng t mod n) ` {..<t} \<Longrightarrow>
         (\<forall>s<n. used ! s \<longleftrightarrow> s \<in> set out) \<Longrightarrow> length out \<le> k \<Longrightarrow>
         \<exists>out'. pick_loop rng n k t used out = Some (Inr out') \<and> length out' = k \<and>
                distinct out' \<and> set out' \<subseteq> {..<n}"
proof (induction "T - t" arbitrary: t used out rule: less_induct)
  case less
  have sub: "set out \<subseteq> {..<n}" using less.prems(4) n by auto
  show ?case
  proof (cases "length out < k")
    case False
    with less.prems(6) have "length out = k" by simp
    with False less.prems(3) sub show ?thesis
      by (subst pick_loop.simps) simp
  next
    case True
    have "t \<noteq> T"
    proof
      assume "t = T"
      with less.prems(4) have "card ((\<lambda>t. rng t mod n) ` {..<T}) = card (set out)" by simp
      also have "\<dots> = length out" using less.prems(3) by (rule distinct_card)
      finally show False using True fair by simp
    qed
    with less.prems(1) have tT: "t < T" by simp
    let ?s = "rng t mod n"
    have sn: "?s < n" using n by simp
    have img: "(\<lambda>t. rng t mod n) ` {..<t + 1} = insert ?s ((\<lambda>t. rng t mod n) ` {..<t})"
      by (simp add: lessThan_Suc)
    show ?thesis
    proof (cases "used ! ?s")
      case u: True
      with less.prems(5) sn have "?s \<in> set out" by simp
      with img less.prems(4) have 4: "set out = (\<lambda>t. rng t mod n) ` {..<t + 1}" by auto
      have "\<exists>out'. pick_loop rng n k (t + 1) used out = Some (Inr out') \<and> length out' = k \<and>
                distinct out' \<and> set out' \<subseteq> {..<n}"
        using tT less.prems by (intro less.hyps 4) simp_all
      with True u n show ?thesis
        by (subst pick_loop.simps) (simp add: Let_def)
    next
      case u: False
      with less.prems(5) sn have notin: "?s \<notin> set out" by simp
      have 3: "distinct (out @ [?s])" using less.prems(3) notin by simp
      have 4: "set (out @ [?s]) = (\<lambda>t. rng t mod n) ` {..<t + 1}"
        using img less.prems(4) by simp
      have 5: "\<forall>s<n. (used[?s := True]) ! s \<longleftrightarrow> s \<in> set (out @ [?s])"
        using less.prems(2,5) sn by (auto simp: nth_list_update)
      have "\<exists>out'. pick_loop rng n k (t + 1) (used[?s := True]) (out @ [?s]) = Some (Inr out') \<and>
              length out' = k \<and> distinct out' \<and> set out' \<subseteq> {..<n}"
        using tT less.prems(2) True by (intro less.hyps 3 4 5) simp_all
      with True u n show ?thesis
        by (subst pick_loop.simps) (simp add: Let_def)
    qed
  qed
qed

lemma pick_loop_no_error:
  assumes ret: "pick_loop rng n k t used out = Some y"
  shows "n = 0 \<or> (\<exists>out'. y = Inr out')"
proof (rule pick_loop.raw_induct[rotated, OF ret, where
      P = "\<lambda>rng n k t used out y. n = 0 \<or> (\<exists>out'. y = Inr out')"], goal_cases)
  case (1 f rng n k t used out y)
  show ?case
  proof (cases "n = 0")
    case True
    then show ?thesis by simp
  next
    case False
    show ?thesis
    proof (cases "length out < k")
      case lt: True
      show ?thesis
      proof (cases "used ! (rng t mod n)")
        case True
        with 1(2) lt False have "f rng n k (t + 1) used out = Some y" by (simp add: Let_def)
        from 1(1)[OF this] show ?thesis .
      next
        case u: False
        with 1(2) lt False
        have "f rng n k (t + 1) (used[rng t mod n := True]) (out @ [rng t mod n]) = Some y"
          by (simp add: Let_def)
        from 1(1)[OF this] show ?thesis .
      qed
    next
      case ge: False
      with 1(2) show ?thesis by auto
    qed
  qed
qed

lemma c_read_source_records_rest:
  "length recs = k - i \<Longrightarrow> i \<le> k \<Longrightarrow>
   c_read_source_records k i (concat (map (\<lambda>(s, d0). [s, d0]) recs) @ rest) out
     = Inr (out @ map (\<lambda>(s, d0). cast_u32 (unat s)) recs)"
proof (induction recs arbitrary: i out)
  case Nil
  then show ?case by (subst c_read_source_records.simps) simp
next
  case (Cons r recs)
  obtain s d0 where r: "r = (s, d0)" by (cases r)
  from Cons.prems have lt: "i < k" by simp
  from Cons.prems have "length recs = k - (i + 1)" "i + 1 \<le> k" by simp_all
  from Cons.IH[OF this] lt r show ?case
    by (subst c_read_source_records.simps) simp
qed

lemma c_read_source_records_error:
  "c_read_source_records k i toks out = Inl e \<Longrightarrow> e = ReadFailed \<and> length toks < 2 * (k - i)"
proof (induction k i toks out rule: c_read_source_records.induct)
  case (1 k i toks out)
  show ?case
  proof (cases "i < k")
    case False
    with "1.prems" show ?thesis by (subst (asm) c_read_source_records.simps) simp
  next
    case lt: True
    show ?thesis
    proof (cases toks)
      case Nil
      with "1.prems" lt show ?thesis by (subst (asm) c_read_source_records.simps) simp
    next
      case (Cons s t1)
      show ?thesis
      proof (cases t1)
        case Nil
        with "1.prems" lt Cons show ?thesis by (subst (asm) c_read_source_records.simps) simp
      next
        case c2: (Cons d0 rest)
        from "1.prems" lt Cons c2
        have "c_read_source_records k (i + 1) rest (out @ [cast_u32 (unat s)]) = Inl e"
          by (subst (asm) c_read_source_records.simps) simp
        from "1.IH"[OF lt Cons c2 this] have "e = ReadFailed" "length rest < 2 * (k - (i + 1))"
          by simp_all
        with lt Cons c2 show ?thesis by auto
      qed
    qed
  qed
qed

lemma c_read_source_records_short:
  "length toks < 2 * (k - i) \<Longrightarrow> c_read_source_records k i toks out = Inl ReadFailed"
proof (induction k i toks out rule: c_read_source_records.induct)
  case (1 k i toks out)
  from "1.prems" have lt: "i < k" by simp
  show ?case
  proof (cases toks)
    case Nil
    with lt show ?thesis by (subst c_read_source_records.simps) simp
  next
    case (Cons s t1)
    show ?thesis
    proof (cases t1)
      case Nil
      with lt Cons show ?thesis by (subst c_read_source_records.simps) simp
    next
      case c2: (Cons d0 rest)
      from "1.prems" Cons c2 have "length rest < 2 * (k - (i + 1))" by simp
      from "1.IH"[OF lt Cons c2 this] lt Cons c2 show ?thesis
        by (subst c_read_source_records.simps) simp
    qed
  qed
qed

lemma cpp_read_source_records_rest:
  "length recs = k - i \<Longrightarrow> i \<le> k \<Longrightarrow>
   cpp_read_source_records k i (map Num (concat (map (\<lambda>(s, d0). [s, d0]) recs)) @ rest, False) src
     = Inr (src @ map (\<lambda>(s, d0). (cast_u32 (unat s), d0)) recs)"
proof (induction recs arbitrary: i src)
  case Nil
  then show ?case by (subst cpp_read_source_records.simps) simp
next
  case (Cons r recs)
  obtain s d0 where r: "r = (s, d0)" by (cases r)
  from Cons.prems have lt: "i < k" by simp
  from Cons.prems have "length recs = k - (i + 1)" "i + 1 \<le> k" by simp_all
  from Cons.IH[OF this] lt r show ?case
    by (subst cpp_read_source_records.simps) (simp add: istream_get_def)
qed

lemma pick_example: "c_pick_sources (\<lambda>t. t) 3 2 = Some (Inr [0, 1])"
proof -
  have "pick_loop (\<lambda>t. t) 3 2 0 [False, False, False] [] = Some (Inr [0, 1])"
    apply (subst pick_loop.simps)
    apply simp
    apply (subst pick_loop.simps)
    apply simp
    apply (subst pick_loop.simps)
    apply simp
    done
  then show ?thesis by (simp add: c_pick_sources_def numeral_3_eq_3)
qed

subsection \<open>The effect of the relaxation loop\<close>

lemma relax_edge_elim:
  fixes st :: "('c::len) word state"
  assumes "relax_edge push g B d0 ei st = Inr s'"
  obtains
    (improve) "ei < length (g_edges g)" "edge_to (g_edges g ! ei) < length (dist st)"
      "d0 + edge_w (g_edges g ! ei) < dist st ! edge_to (g_edges g ! ei)"
      "d0 + edge_w (g_edges g ! ei) < B"
      "dist s' = (dist st)[edge_to (g_edges g ! ei) := d0 + edge_w (g_edges g ! ei)]"
      "pq s' = push (pq st) (Entry (d0 + edge_w (g_edges g ! ei)) (edge_to (g_edges g ! ei)))"
      "b_prime s' = b_prime st" "trace s' = trace st"
  | (beyond) "ei < length (g_edges g)" "edge_to (g_edges g ! ei) < length (dist st)"
      "B \<le> d0 + edge_w (g_edges g ! ei)"
      "dist s' = dist st" "pq s' = pq st"
      "b_prime s' = min (d0 + edge_w (g_edges g ! ei)) (b_prime st)"
      "trace s' = trace st @ [Cand (d0 + edge_w (g_edges g ! ei))]"
  | (keep) "ei < length (g_edges g)" "edge_to (g_edges g ! ei) < length (dist st)"
      "d0 + edge_w (g_edges g ! ei) < B"
      "dist st ! edge_to (g_edges g ! ei) \<le> d0 + edge_w (g_edges g ! ei)"
      "dist s' = dist st" "pq s' = pq st" "b_prime s' = b_prime st" "trace s' = trace st"
proof -
  from assms have 1: "ei < length (g_edges g)"
    by (auto simp: relax_edge_def split: if_splits)
  from assms 1 have 2: "edge_to (g_edges g ! ei) < length (dist st)"
    by (auto simp: relax_edge_def Let_def split: if_splits)
  from 1 2 show thesis
  proof (cases rule: relax_edge_cases[where push = push and B = B and ?d0.0 = d0])
    case (improve s1)
    with assms 1 2 show ?thesis by (intro that(1)) auto
  next
    case (beyond s1)
    with assms 1 2 show ?thesis by (intro that(2)) auto
  next
    case (keep s1)
    with assms 1 2 show ?thesis by (intro that(3)) auto
  qed
qed

lemma relax_edges_induct [consumes 1, case_names Nil Cons]:
  assumes "relax_edges push g B d0 eis st = Inr s'"
    and "\<And>st. P [] st st"
    and "\<And>ei eis st s1 s'. relax_edge push g B d0 ei st = Inr s1 \<Longrightarrow>
           relax_edges push g B d0 eis s1 = Inr s' \<Longrightarrow> P eis s1 s' \<Longrightarrow> P (ei # eis) st s'"
  shows "P eis st s'"
  using assms(1)
proof (induction eis arbitrary: st)
  case Nil
  then show ?case using assms(2) by simp
next
  case (Cons ei eis)
  from Cons.prems obtain s1 where 1: "relax_edge push g B d0 ei st = Inr s1"
    and 2: "relax_edges push g B d0 eis s1 = Inr s'" by (auto split: sum.splits)
  from assms(3)[OF 1 2 Cons.IH[OF 2]] show ?case .
qed

text \<open>Distances only decrease; a changed distance is below \<open>B\<close>, was computed from one
  of the visited edges, and its entry is in the queue.\<close>

lemma relax_edges_dist:
  fixes st :: "('c::len) word state"
  assumes "relax_edges push g B d0 eis st = Inr s'" and push: "push_ok push"
  shows "length (dist s') = length (dist st) \<and>
     set (pq st) \<subseteq> set (pq s') \<and>
     (\<forall>i. dist s' ! i \<le> dist st ! i) \<and>
     (\<forall>i. dist s' ! i \<noteq> dist st ! i \<longrightarrow>
         i < length (dist st) \<and> Entry (dist s' ! i) i \<in> set (pq s') \<and> dist s' ! i < B \<and>
         (\<exists>ei \<in> set eis. ei < length (g_edges g) \<and> edge_to (g_edges g ! ei) = i \<and>
                          dist s' ! i = d0 + edge_w (g_edges g ! ei)))"
  using assms(1)
proof (induction rule: relax_edges_induct)
  case (Nil st)
  show ?case by simp
next
  case (Cons ei eis st s1 s')
  let ?t = "edge_to (g_edges g ! ei)" and ?nd = "d0 + edge_w (g_edges g ! ei)"
  note IH = Cons(3)
  from Cons(1) have 1: "length (dist s1) = length (dist st) \<and> set (pq st) \<subseteq> set (pq s1) \<and>
      (\<forall>i. dist s1 ! i \<le> dist st ! i) \<and>
      (\<forall>i. dist s1 ! i \<noteq> dist st ! i \<longrightarrow> i = ?t \<and> i < length (dist st) \<and> ei < length (g_edges g) \<and>
          dist s1 ! i = ?nd \<and> ?nd < B \<and> Entry ?nd ?t \<in> set (pq s1))"
  proof (cases rule: relax_edge_elim)
    case improve
    then show ?thesis
      by (auto simp: push_ok_set[OF push] nth_list_update)
  next
    case beyond
    then show ?thesis by simp
  next
    case keep
    then show ?thesis by simp
  qed
  have "dist s' ! i \<noteq> dist st ! i \<longrightarrow>
         i < length (dist st) \<and> Entry (dist s' ! i) i \<in> set (pq s') \<and> dist s' ! i < B \<and>
         (\<exists>ei \<in> set (ei # eis). ei < length (g_edges g) \<and> edge_to (g_edges g ! ei) = i \<and>
                          dist s' ! i = d0 + edge_w (g_edges g ! ei))" for i
  proof (cases "dist s' ! i = dist s1 ! i")
    case False
    with IH 1 show ?thesis by auto
  next
    case True
    show ?thesis
    proof
      assume "dist s' ! i \<noteq> dist st ! i"
      with True have "dist s1 ! i \<noteq> dist st ! i" by simp
      with 1 have "i = ?t" "i < length (dist st)" "ei < length (g_edges g)" "dist s1 ! i = ?nd"
        "?nd < B" "Entry ?nd ?t \<in> set (pq s1)" by blast+
      moreover from IH have "set (pq s1) \<subseteq> set (pq s')" by blast
      ultimately show "i < length (dist st) \<and> Entry (dist s' ! i) i \<in> set (pq s') \<and> dist s' ! i < B \<and>
         (\<exists>ei \<in> set (ei # eis). ei < length (g_edges g) \<and> edge_to (g_edges g ! ei) = i \<and>
                          dist s' ! i = d0 + edge_w (g_edges g ! ei))"
        using True by auto
    qed
  qed
  moreover have "\<forall>i. dist s' ! i \<le> dist st ! i"
    using IH 1 by (meson order_trans)
  ultimately show ?case using IH 1 by auto
qed

text \<open>Every visited edge whose candidate is below \<open>B\<close> has been relaxed.\<close>

lemma relax_edges_done:
  fixes st :: "('c::len) word state"
  assumes "relax_edges push g B d0 eis st = Inr s'" and push: "push_ok push"
  shows "\<forall>ei \<in> set eis. d0 + edge_w (g_edges g ! ei) < B \<longrightarrow>
           dist s' ! edge_to (g_edges g ! ei) \<le> d0 + edge_w (g_edges g ! ei)"
  using assms(1)
proof (induction rule: relax_edges_induct)
  case (Nil st)
  show ?case by simp
next
  case (Cons ei eis st s1 s')
  let ?t = "edge_to (g_edges g ! ei)" and ?nd = "d0 + edge_w (g_edges g ! ei)"
  from Cons(1) have 1: "?nd < B \<longrightarrow> dist s1 ! ?t \<le> ?nd"
    by (cases rule: relax_edge_elim) auto
  from relax_edges_dist[OF Cons(2) push] have "dist s' ! ?t \<le> dist s1 ! ?t" by blast
  with 1 have "?nd < B \<longrightarrow> dist s' ! ?t \<le> ?nd" by auto
  with Cons(3) show ?case by simp
qed

text \<open>The entries pushed have distances below \<open>B\<close> and nodes inside the array.\<close>

lemma relax_edges_pq:
  fixes st :: "('c::len) word state"
  assumes "relax_edges push g B d0 eis st = Inr s'" and push: "push_ok push"
  shows "\<forall>e \<in> set (pq s'). e \<in> set (pq st) \<or>
           (e_d e < B \<and> (\<exists>ei \<in> set eis. ei < length (g_edges g) \<and>
                             e_d e = d0 + edge_w (g_edges g ! ei)))"
  using assms(1)
proof (induction rule: relax_edges_induct)
  case (Nil st)
  show ?case by simp
next
  case (Cons ei eis st s1 s')
  from Cons(1) have 1: "\<forall>e \<in> set (pq s1). e \<in> set (pq st) \<or>
      (e_d e < B \<and> ei < length (g_edges g) \<and> e_d e = d0 + edge_w (g_edges g ! ei))"
    by (cases rule: relax_edge_elim) (auto simp: push_ok_set[OF push])
  with Cons(3) show ?case by fastforce
qed

text \<open>The history variable and \<open>b_prime\<close>.\<close>

fun observed :: "U64 \<Rightarrow> event list \<Rightarrow> U64 list" where
  "observed B [] = []"
| "observed B (Stale x v # tr) = (if x \<ge> B then x # observed B tr else observed B tr)"
| "observed B (Fresh x v # tr) = (if x \<ge> B then x # observed B tr else observed B tr)"
| "observed B (Cand x # tr) = x # observed B tr"

fun fresh_ds :: "event list \<Rightarrow> U64 list" where
  "fresh_ds [] = []"
| "fresh_ds (Fresh x v # tr) = x # fresh_ds tr"
| "fresh_ds (ev # tr) = fresh_ds tr"

definition least_of :: "U64 list \<Rightarrow> U64" where
  "least_of xs = foldr min xs ULLONG_MAX"

lemma observed_append: "observed B (tr @ tr') = observed B tr @ observed B tr'"
  by (induction B tr rule: observed.induct) auto

lemma fresh_ds_append: "fresh_ds (tr @ tr') = fresh_ds tr @ fresh_ds tr'"
  by (induction tr rule: fresh_ds.induct) auto

lemma least_of_snoc: "least_of (xs @ [x]) = min x (least_of xs)"
proof -
  have a: "foldr min xs (min x a) = min x (foldr min xs a)" for a :: U64
    by (induction xs) (auto simp: min.left_commute)
  have "min x ULLONG_MAX = x" by (simp add: min_def)
  with a[of ULLONG_MAX] show ?thesis by (simp add: least_of_def)
qed

lemma least_of_Min:
  "least_of xs = (if xs = [] then ULLONG_MAX else Min (set xs))"
proof (induction xs)
  case Nil
  show ?case by (simp add: least_of_def)
next
  case (Cons x xs)
  show ?case
  proof (cases "xs = []")
    case True
    then show ?thesis by (simp add: least_of_def min_def)
  next
    case False
    with Cons have "least_of xs = Min (set xs)" by simp
    with False show ?thesis by (simp add: least_of_def)
  qed
qed

lemma relax_edges_trace:
  fixes st :: "('c::len) word state"
  assumes "relax_edges push g B d0 eis st = Inr s'"
  shows "fresh_ds (trace s') = fresh_ds (trace st) \<and> popped s' = popped st \<and>
     (b_prime st = least_of (observed B (trace st)) \<longrightarrow>
      b_prime s' = least_of (observed B (trace s')))"
  using assms(1)
proof (induction rule: relax_edges_induct)
  case (Nil st)
  show ?case by simp
next
  case (Cons ei eis st s1 s')
  from Cons(1) have "fresh_ds (trace s1) = fresh_ds (trace st) \<and>
     (b_prime st = least_of (observed B (trace st)) \<longrightarrow>
      b_prime s1 = least_of (observed B (trace s1)))"
    by (cases rule: relax_edge_elim)
       (auto simp: fresh_ds_append observed_append least_of_snoc)
  moreover from Cons(1) have "popped s1 = popped st"
    by (auto simp: relax_edge_def Let_def split: if_splits)
  ultimately show ?case using Cons(3) by simp
qed

subsection \<open>Runs with bound 0\<close>

lemma cpp_init_sources_zero: "cpp_init_sources 0 src st = Inr st"
  by (induction src arbitrary: st) auto

lemma c_trial_zero:
  assumes a: "sources \<noteq> [] \<and> list_all (\<lambda>s. s < g_n g) sources"
  shows "\<exists>st s. c_trial g sources 0 = Inr st \<and> s \<in> set sources \<and>
         trace st = [Fresh 0 s] \<and> b_prime st = 0 \<and> popped st = 0"
proof -
  from c_init_spec[of g sources] a obtain st0 where
    r: "c_init g sources = Inr st0" and len: "length (dist st0) = g_n g"
    and q: "mset (pq st0) = mset (map (Entry 0) sources)"
    and fr: "b_prime st0 = ULLONG_MAX" "popped st0 = 0" "trace st0 = []"
    and z: "\<forall>i \<in> set sources. dist st0 ! i = 0" by blast
  from q have sq: "set (pq st0) = Entry 0 ` set sources" by (metis set_map set_mset_mset)
  with a have ne: "pq st0 \<noteq> []" by auto
  from heap_pop_nonempty[OF ne] obtain cur h' where
    hp: "heap_pop (pq st0) = Some (cur, h')" by blast
  from heap_pop_set[OF hp] sq obtain s where s: "s \<in> set sources" "cur = Entry 0 s" by auto
  from s a len have sl: "s < length (dist st0)" by (simp add: list_all_iff)
  from s z have d: "dist st0 ! s = 0" by blast
  let ?st = "st0\<lparr>pq := h', trace := [Fresh 0 s], b_prime := 0\<rparr>"
  have v: "visit heap_push g 0 cur (st0\<lparr>pq := h'\<rparr>) = Inr (False, ?st)"
    using s sl d fr by (simp add: visit_def)
  have "c_loop g 0 st0 = Inr ?st"
    using hp v by (subst c_loop.simps) simp
  with r have "c_trial g sources 0 = Inr ?st" by (simp add: c_trial_def)
  with s fr show ?thesis by auto
qed

lemma cpp_trial_zero: "cpp_trial g src 0 = Inr (start_state g)"
  by (simp add: cpp_trial_def cpp_init_def cpp_init_sources_zero cpp_loop.simps)


subsection \<open>The effect of one iteration\<close>

lemma visit_elim:
  fixes st :: "('c::len) word state"
  assumes "visit push g B cur st = Inr (c, s')"
  obtains
    (stale) "e_v cur < length (dist st)" "e_d cur \<noteq> dist st ! e_v cur" "c"
      "dist s' = dist st" "pq s' = pq st" "b_prime s' = b_prime st" "popped s' = popped st"
      "trace s' = trace st @ [Stale (e_d cur) (e_v cur)]"
  | (break) "e_v cur < length (dist st)" "e_d cur = dist st ! e_v cur" "B \<le> e_d cur" "\<not> c"
      "dist s' = dist st" "pq s' = pq st" "b_prime s' = e_d cur" "popped s' = popped st"
      "trace s' = trace st @ [Fresh (e_d cur) (e_v cur)]"
  | (relax) s1 where "e_v cur < length (dist st)" "e_v cur + 1 < length (g_head g)"
      "e_d cur = dist st ! e_v cur" "e_d cur < B" "c"
      "dist s1 = dist st" "pq s1 = pq st" "b_prime s1 = b_prime st" "popped s1 = popped st + 1"
      "trace s1 = trace st @ [Fresh (e_d cur) (e_v cur)]"
      "relax_edges push g B (e_d cur) [g_head g ! e_v cur ..< g_head g ! (e_v cur + 1)] s1 = Inr s'"
proof -
  from assms have 1: "e_v cur < length (dist st)"
    by (auto simp: visit_def split: if_splits)
  consider "e_d cur \<noteq> dist st ! e_v cur" | "e_d cur = dist st ! e_v cur" "B \<le> e_d cur"
    | "e_d cur = dist st ! e_v cur" "e_d cur < B" by (meson not_le_imp_less)
  then show thesis
  proof cases
    case 1
    with assms \<open>e_v cur < length (dist st)\<close> show ?thesis
      by (intro stale) (auto simp: visit_def)
  next
    case 2
    with assms \<open>e_v cur < length (dist st)\<close> show ?thesis
      by (intro break) (auto simp: visit_def)
  next
    case 3
    let ?s1 = "st\<lparr>trace := trace st @ [Fresh (e_d cur) (e_v cur)], popped := popped st + 1\<rparr>"
    from 3 have nb: "\<not> B \<le> e_d cur" by simp
    from assms 3(1) nb \<open>e_v cur < length (dist st)\<close> have 2: "e_v cur + 1 < length (g_head g)"
      by (auto simp: visit_def Let_def split: if_splits)
    from assms 3(1) nb 2 \<open>e_v cur < length (dist st)\<close>
    have r: "relax_edges push g B (e_d cur) [g_head g ! e_v cur ..< g_head g ! (e_v cur + 1)] ?s1
               = Inr s'" and c: "c"
      by (auto simp: visit_def Let_def split: sum.splits)
    from r c 3 2 \<open>e_v cur < length (dist st)\<close> show ?thesis
      by (intro relax[of ?s1]) simp_all
  qed
qed

subsection \<open>The boundary value is the least observed distance\<close>

definition K_inv :: "U64 \<Rightarrow> ('c::len) word state \<Rightarrow> bool" where
  "K_inv B st \<longleftrightarrow> b_prime st = least_of (observed B (trace st)) \<and> (\<forall>e \<in> set (pq st). e_d e < B)"

lemma visit_K:
  fixes st :: "('c::len) word state"
  assumes v: "visit push g B cur st = Inr (c, s')" and push: "push_ok push"
    and cur: "e_d cur < B" and K: "K_inv B st"
  shows "c \<and> K_inv B s'"
  using v
proof (cases rule: visit_elim)
  case stale
  from cur have "\<not> B \<le> e_d cur" by simp
  with stale K show ?thesis by (simp add: K_inv_def observed_append)
next
  case break
  with cur show ?thesis by simp
next
  case (relax s1)
  from cur have "\<not> B \<le> e_d cur" by simp
  with relax K have 1: "b_prime s1 = least_of (observed B (trace s1))"
    by (simp add: K_inv_def observed_append)
  from relax_edges_trace[OF relax(11)] 1 have 2: "b_prime s' = least_of (observed B (trace s'))"
    by blast
  from relax_edges_pq[OF relax(11) push] relax(7) K have "\<forall>e \<in> set (pq s'). e_d e < B"
    by (auto simp: K_inv_def)
  with 2 relax(5) show ?thesis by (simp add: K_inv_def)
qed

lemma cpp_loop_K:
  fixes st :: cpp_state
  assumes wf: "wf_graph g" and ok: "st_ok g st" and K: "K_inv B st"
  shows "\<exists>st'. cpp_loop g B st = Inr st' \<and> b_prime st' = least_of (observed B (trace st'))"
proof (rule cpp_loop_rule[where P = "\<lambda>s. st_ok g s \<and> K_inv B s"])
  show "st_ok g st \<and> K_inv B st" using ok K by simp
next
  fix s :: cpp_state
  assume a: "st_ok g s \<and> K_inv B s" and ne: "pq s \<noteq> []"
  note po = cpp_pop_ok[OF conjunct1[OF a] ne]
  from visit_ok[OF wf push_ok_pq_push po, of B] obtain c s' where
    v: "visit pq_push g B (pq_top (pq s)) (s\<lparr>pq := pq_pop (pq s)\<rparr>) = Inr (c, s')"
    and ok': "st_ok g s'" by blast
  from mset_pq_pop[OF ne] have sq: "set (pq s) = insert (pq_top (pq s)) (set (pq_pop (pq s)))"
    by (metis set_mset_add_mset_insert set_mset_mset)
  with a have cur: "e_d (pq_top (pq s)) < B" and K': "K_inv B (s\<lparr>pq := pq_pop (pq s)\<rparr>)"
    by (auto simp: K_inv_def)
  from visit_K[OF v push_ok_pq_push cur K'] v ok'
  show "\<exists>c s'. visit pq_push g B (pq_top (pq s)) (s\<lparr>pq := pq_pop (pq s)\<rparr>) = Inr (c, s') \<and>
      (c \<longrightarrow> st_ok g s' \<and> K_inv B s') \<and>
      (\<not> c \<longrightarrow> b_prime s' = least_of (observed B (trace s')))"
    by blast
qed (simp add: K_inv_def)

lemma c_loop_K:
  fixes st :: c_state
  assumes wf: "wf_graph g" and ok: "st_ok g st" and K: "K_inv B st"
  shows "\<exists>st'. c_loop g B st = Inr st' \<and> b_prime st' = least_of (observed B (trace st'))"
proof (rule c_loop_rule[where P = "\<lambda>s. st_ok g s \<and> K_inv B s"])
  show "st_ok g st \<and> K_inv B st" using ok K by simp
next
  fix s :: c_state and cur h'
  assume a: "st_ok g s \<and> K_inv B s" and hp: "heap_pop (pq s) = Some (cur, h')"
  note po = c_pop_ok[OF conjunct1[OF a] hp]
  from visit_ok[OF wf push_ok_heap_push po, of B] obtain c s' where
    v: "visit heap_push g B cur (s\<lparr>pq := h'\<rparr>) = Inr (c, s')"
    and ok': "st_ok g s'" by blast
  from heap_pop_set[OF hp] a have cur: "e_d cur < B" and K': "K_inv B (s\<lparr>pq := h'\<rparr>)"
    by (auto simp: K_inv_def)
  from visit_K[OF v push_ok_heap_push cur K'] v ok'
  show "\<exists>c s'. visit heap_push g B cur (s\<lparr>pq := h'\<rparr>) = Inr (c, s') \<and>
      (c \<longrightarrow> st_ok g s' \<and> K_inv B s') \<and>
      (\<not> c \<longrightarrow> b_prime s' = least_of (observed B (trace s')))"
    by blast
qed (simp add: K_inv_def)

lemma cpp_trial_b_prime:
  assumes wf: "wf_graph g" and src: "sources_ok g src"
  shows "\<exists>st. cpp_trial g src B = Inr st \<and> b_prime st = least_of (observed B (trace st))"
proof -
  from cpp_init_spec[OF src, of B] obtain st0 where
    r: "cpp_init g src B = Inr st0"
    and q: "mset (pq st0) = mset (map (\<lambda>(s, d0). Entry d0 s) (active B src))"
    and fr: "b_prime st0 = ULLONG_MAX" "trace st0 = []" by blast
  from q have "set (pq st0) = (\<lambda>(s, d0). Entry d0 s) ` set (active B src)"
    by (metis set_map set_mset_mset)
  with fr have "K_inv B st0" by (auto simp: K_inv_def least_of_def active_def)
  from cpp_loop_K[OF wf cpp_init_st_ok[OF src r] this] r show ?thesis
    by (simp add: cpp_trial_def)
qed

lemma c_trial_b_prime:
  assumes wf: "wf_graph g" and src: "list_all (\<lambda>s. s < g_n g) sources"
  shows "\<exists>st. c_trial g sources B = Inr st \<and> b_prime st = least_of (observed B (trace st))"
proof (cases "B = 0")
  case False
  from c_init_spec[OF src] obtain st0 where
    r: "c_init g sources = Inr st0"
    and q: "mset (pq st0) = mset (map (Entry 0) sources)"
    and fr: "b_prime st0 = ULLONG_MAX" "trace st0 = []" by blast
  from q have "set (pq st0) = Entry 0 ` set sources" by (metis set_map set_mset_mset)
  with fr False have "K_inv B st0" by (auto simp: K_inv_def least_of_def word_gt_0)
  from c_loop_K[OF wf c_init_st_ok[OF src r] this] r show ?thesis
    by (simp add: c_trial_def)
next
  case True
  show ?thesis
  proof (cases "sources = []")
    case T: True
    have "c_trial g [] B = Inr (start_state g)"
      by (simp add: c_trial_def c_init_def c_loop.simps heap_pop_def)
    with T show ?thesis by (simp add: least_of_def)
  next
    case F: False
    from c_trial_zero[of sources g] F src True show ?thesis
      by (auto simp: least_of_def)
  qed
qed

subsection \<open>Sums that do not wrap around\<close>

text \<open>No edge weight added to the bound exceeds the largest 64-bit number; then no
  sum \<open>d + w\<close> with \<open>d < B\<close> wraps around.\<close>

definition no_overflow :: "Graph \<Rightarrow> U64 \<Rightarrow> bool" where
  "no_overflow g B \<longleftrightarrow> list_all (\<lambda>e. edge_w e \<le> ULLONG_MAX - B) (g_edges g)"

lemma no_wrap:
  fixes d0 w B :: U64
  assumes "w \<le> ULLONG_MAX - B" "d0 < B"
  shows "unat (d0 + w) = unat d0 + unat w" "d0 \<le> d0 + w"
proof -
  have m: "ULLONG_MAX = - 1" by (simp add: ULLONG_MAX_def)
  have "B \<le> ULLONG_MAX" by simp
  then have "unat (ULLONG_MAX - B) = unat ULLONG_MAX - unat B" by (rule unat_sub)
  moreover have "unat w \<le> unat (ULLONG_MAX - B)" using assms(1) by (simp add: word_le_nat_alt)
  moreover have "unat d0 < unat B" using assms(2) by (simp add: word_less_nat_alt)
  moreover have "unat ULLONG_MAX < 2 ^ 64" using unsigned_less[of ULLONG_MAX] by simp
  moreover have "unat B \<le> unat ULLONG_MAX" using \<open>B \<le> ULLONG_MAX\<close> by (simp add: word_le_nat_alt)
  ultimately have "unat d0 + unat w < 2 ^ 64" by linarith
  then have "unat d0 + unat w < 2 ^ LENGTH(64)" by simp
  then show u: "unat (d0 + w) = unat d0 + unat w" by (rule unat_add_lem[THEN iffD1])
  show "d0 \<le> d0 + w" unfolding word_le_nat_alt u by simp
qed

lemma no_overflow_edge:
  assumes "no_overflow g B" "ei < length (g_edges g)" "d0 < B"
  shows "unat (d0 + edge_w (g_edges g ! ei)) = unat d0 + unat (edge_w (g_edges g ! ei))"
    "d0 \<le> d0 + edge_w (g_edges g ! ei)"
proof -
  from assms(1,2) have "edge_w (g_edges g ! ei) \<le> ULLONG_MAX - B"
    by (simp add: no_overflow_def list_all_length)
  from no_wrap[OF this assms(3)]
  show "unat (d0 + edge_w (g_edges g ! ei)) = unat d0 + unat (edge_w (g_edges g ! ei))"
    "d0 \<le> d0 + edge_w (g_edges g ! ei)" by simp_all
qed

subsection \<open>The popped distances do not decrease\<close>

definition M_inv :: "('c::len) word state \<Rightarrow> bool" where
  "M_inv st \<longleftrightarrow> sorted (fresh_ds (trace st)) \<and>
     (\<forall>x \<in> set (fresh_ds (trace st)). \<forall>e \<in> set (pq st). x \<le> e_d e)"

lemma visit_M:
  fixes st :: "('c::len) word state"
  assumes v: "visit push g B cur st = Inr (c, s')" and push: "push_ok push"
    and nov: "no_overflow g B"
    and M: "M_inv st" and cur: "\<forall>x \<in> set (fresh_ds (trace st)). x \<le> e_d cur"
    and least: "\<forall>e \<in> set (pq st). e_d cur \<le> e_d e"
  shows "M_inv s'"
  using v
proof (cases rule: visit_elim)
  case stale
  with M show ?thesis by (simp add: M_inv_def fresh_ds_append)
next
  case break
  with M cur least show ?thesis by (auto simp: M_inv_def fresh_ds_append sorted_append)
next
  case (relax s1)
  from relax M cur have 1: "sorted (fresh_ds (trace s1))"
    by (auto simp: M_inv_def fresh_ds_append sorted_append)
  from relax cur have 2: "\<forall>x \<in> set (fresh_ds (trace s1)). x \<le> e_d cur"
    by (auto simp: fresh_ds_append)
  from relax_edges_trace[OF relax(11)] have 3: "fresh_ds (trace s') = fresh_ds (trace s1)"
    by blast
  have "x \<le> e_d e" if x: "x \<in> set (fresh_ds (trace s1))" and e: "e \<in> set (pq s')" for x e
  proof -
    from 2 x have xc: "x \<le> e_d cur" by blast
    from relax_edges_pq[OF relax(11) push] e
    consider "e \<in> set (pq s1)"
      | ei where "ei < length (g_edges g)" "e_d e = e_d cur + edge_w (g_edges g ! ei)"
      by blast
    then show ?thesis
    proof cases
      case 1
      with relax(7) least have "e_d cur \<le> e_d e" by simp
      with xc show ?thesis by simp
    next
      case 2
      from no_overflow_edge(2)[OF nov 2(1) relax(4)] 2(2) have "e_d cur \<le> e_d e" by simp
      with xc show ?thesis by simp
    qed
  qed
  with 1 3 show ?thesis by (simp add: M_inv_def)
qed

lemma relax_edges_pq_pred:
  fixes st :: "('c::len) word state"
  assumes "relax_edges push g B d0 eis st = Inr s'" "Q (pq st)" "\<And>q e. Q q \<Longrightarrow> Q (push q e)"
  shows "Q (pq s')"
  using assms(1,2)
proof (induction rule: relax_edges_induct)
  case (Nil st)
  then show ?case by simp
next
  case (Cons ei eis st s1 s')
  from Cons(1) Cons(4) have "Q (pq s1)"
    by (cases rule: relax_edge_elim) (auto intro: assms(3))
  with Cons(3) show ?case by simp
qed

lemma visit_is_heap:
  fixes st :: "('c::len) word state"
  assumes v: "visit heap_push g B cur st = Inr (c, s')" and h: "is_heap (pq st)"
  shows "is_heap (pq s')"
  using v
proof (cases rule: visit_elim)
  case stale
  with h show ?thesis by simp
next
  case break
  with h show ?thesis by simp
next
  case (relax s1)
  from relax_edges_pq_pred[OF relax(11), of is_heap] relax(7) h
  show ?thesis by (simp add: is_heap_heap_push)
qed

lemma cpp_loop_M:
  fixes st :: cpp_state
  assumes wf: "wf_graph g" and nov: "no_overflow g B" and ok: "st_ok g st" and M: "M_inv st"
  shows "\<exists>st'. cpp_loop g B st = Inr st' \<and> sorted (fresh_ds (trace st'))"
proof (rule cpp_loop_rule[where P = "\<lambda>s. st_ok g s \<and> M_inv s"])
  show "st_ok g st \<and> M_inv st" using ok M by simp
next
  fix s :: cpp_state
  assume a: "st_ok g s \<and> M_inv s" and ne: "pq s \<noteq> []"
  note po = cpp_pop_ok[OF conjunct1[OF a] ne]
  from visit_ok[OF wf push_ok_pq_push po, of B] obtain c s' where
    v: "visit pq_push g B (pq_top (pq s)) (s\<lparr>pq := pq_pop (pq s)\<rparr>) = Inr (c, s')"
    and ok': "st_ok g s'" by blast
  from mset_pq_pop[OF ne] have sq: "set (pq s) = insert (pq_top (pq s)) (set (pq_pop (pq s)))"
    by (metis set_mset_add_mset_insert set_mset_mset)
  from a sq have M': "M_inv (s\<lparr>pq := pq_pop (pq s)\<rparr>)"
    and cur: "\<forall>x \<in> set (fresh_ds (trace (s\<lparr>pq := pq_pop (pq s)\<rparr>))). x \<le> e_d (pq_top (pq s))"
    by (auto simp: M_inv_def)
  have least: "\<forall>e \<in> set (pq (s\<lparr>pq := pq_pop (pq s)\<rparr>)). e_d (pq_top (pq s)) \<le> e_d e"
  proof
    fix e assume "e \<in> set (pq (s\<lparr>pq := pq_pop (pq s)\<rparr>))"
    with sq have "e \<in> set (pq s)" by simp
    from pq_top_least[OF this] show "e_d (pq_top (pq s)) \<le> e_d e"
      by (auto simp: lex_le_def)
  qed
  from visit_M[OF v push_ok_pq_push nov M' cur least] v ok'
  show "\<exists>c s'. visit pq_push g B (pq_top (pq s)) (s\<lparr>pq := pq_pop (pq s)\<rparr>) = Inr (c, s') \<and>
      (c \<longrightarrow> st_ok g s' \<and> M_inv s') \<and> (\<not> c \<longrightarrow> sorted (fresh_ds (trace s')))"
    by (auto simp: M_inv_def)
qed (simp add: M_inv_def)

lemma c_loop_M:
  fixes st :: c_state
  assumes wf: "wf_graph g" and nov: "no_overflow g B" and ok: "st_ok g st" and M: "M_inv st"
    and hp0: "is_heap (pq st)"
  shows "\<exists>st'. c_loop g B st = Inr st' \<and> sorted (fresh_ds (trace st'))"
proof (rule c_loop_rule[where P = "\<lambda>s. st_ok g s \<and> M_inv s \<and> is_heap (pq s)"])
  show "st_ok g st \<and> M_inv st \<and> is_heap (pq st)" using ok M hp0 by simp
next
  fix s :: c_state and cur h'
  assume a: "st_ok g s \<and> M_inv s \<and> is_heap (pq s)" and hp: "heap_pop (pq s) = Some (cur, h')"
  from a have ok_s: "st_ok g s" and M_s: "M_inv s" and h_s: "is_heap (pq s)" by simp_all
  note po = c_pop_ok[OF ok_s hp]
  from visit_ok[OF wf push_ok_heap_push po, of B] obtain c s' where
    v: "visit heap_push g B cur (s\<lparr>pq := h'\<rparr>) = Inr (c, s')"
    and ok': "st_ok g s'" by blast
  note sq = heap_pop_set[OF hp]
  from M_s sq have M': "M_inv (s\<lparr>pq := h'\<rparr>)"
    and cur: "\<forall>x \<in> set (fresh_ds (trace (s\<lparr>pq := h'\<rparr>))). x \<le> e_d cur"
    by (auto simp: M_inv_def)
  have least: "\<forall>e \<in> set (pq (s\<lparr>pq := h'\<rparr>)). e_d cur \<le> e_d e"
  proof
    fix e assume "e \<in> set (pq (s\<lparr>pq := h'\<rparr>))"
    with sq have "e \<in> set (pq s)" by simp
    from heap_pop_min[OF h_s hp this] show "e_d cur \<le> e_d e" .
  qed
  have "is_heap (pq (s\<lparr>pq := h'\<rparr>))" using is_heap_heap_pop[OF h_s hp] by simp
  from visit_is_heap[OF v this] have "is_heap (pq s')" .
  with visit_M[OF v push_ok_heap_push nov M' cur least] v ok'
  show "\<exists>c s'. visit heap_push g B cur (s\<lparr>pq := h'\<rparr>) = Inr (c, s') \<and>
      (c \<longrightarrow> st_ok g s' \<and> M_inv s' \<and> is_heap (pq s')) \<and> (\<not> c \<longrightarrow> sorted (fresh_ds (trace s')))"
    by (auto simp: M_inv_def)
qed (simp add: M_inv_def)

lemma cpp_trial_sorted:
  assumes wf: "wf_graph g" and src: "sources_ok g src" and nov: "no_overflow g B"
  shows "\<exists>st. cpp_trial g src B = Inr st \<and> sorted (fresh_ds (trace st))"
proof -
  from cpp_init_spec[OF src, of B] obtain st0 where
    r: "cpp_init g src B = Inr st0" and fr: "trace st0 = []" by blast
  from fr have "M_inv st0" by (simp add: M_inv_def)
  from cpp_loop_M[OF wf nov cpp_init_st_ok[OF src r] this] r show ?thesis
    by (simp add: cpp_trial_def)
qed

lemma c_trial_sorted:
  assumes wf: "wf_graph g" and src: "list_all (\<lambda>s. s < g_n g) sources" and nov: "no_overflow g B"
  shows "\<exists>st. c_trial g sources B = Inr st \<and> sorted (fresh_ds (trace st))"
proof -
  from c_init_spec[OF src] obtain st0 where
    r: "c_init g sources = Inr st0" and fr: "trace st0 = []" and h: "is_heap (pq st0)" by blast
  from fr have "M_inv st0" by (simp add: M_inv_def)
  from c_loop_M[OF wf nov c_init_st_ok[OF src r] this h] r show ?thesis
    by (simp add: c_trial_def)
qed

subsection \<open>Shortest paths\<close>

text \<open>\<open>path_to g S v l\<close>: some path of the graph leads from a source \<open>(s, d0)\<close> of the
  set \<open>S\<close> to node \<open>v\<close>, and \<open>l\<close> is its length: \<open>d0\<close> plus the weights of its edges,
  added without a bound. The edges of a node are those the engine reads
  (\<open>out_edges\<close>).\<close>

inductive path_to :: "Graph \<Rightarrow> (nat \<times> U64) set \<Rightarrow> nat \<Rightarrow> nat \<Rightarrow> bool"
  for g :: Graph and S :: "(nat \<times> U64) set" where
  start: "(s, d0) \<in> S \<Longrightarrow> path_to g S s (unat d0)"
| edge: "path_to g S u l \<Longrightarrow> u < g_n g \<Longrightarrow> e \<in> set (out_edges g u) \<Longrightarrow>
           path_to g S (edge_to e) (l + unat (edge_w e))"

text \<open>\<open>l\<close> is the true shortest-path distance from the sources \<open>S\<close> to \<open>v\<close>.\<close>

definition shortest :: "Graph \<Rightarrow> (nat \<times> U64) set \<Rightarrow> nat \<Rightarrow> nat \<Rightarrow> bool" where
  "shortest g S v l \<longleftrightarrow> path_to g S v l \<and> (\<forall>l'. path_to g S v l' \<longrightarrow> l \<le> l')"

lemma out_edges_iff:
  "e \<in> set (out_edges g u) \<longleftrightarrow>
     (\<exists>ei \<in> set [g_head g ! u ..< g_head g ! (u + 1)]. e = g_edges g ! ei)"
  by (auto simp: out_edges_def)

text \<open>Every node that has a distance and no entry in the set \<open>Q\<close> has all its edges
  relaxed.\<close>

definition closed :: "Graph \<Rightarrow> U64 \<Rightarrow> U64 list \<Rightarrow> Entry set \<Rightarrow> bool" where
  "closed g B ds Q \<longleftrightarrow>
     (\<forall>u < g_n g. ds ! u \<noteq> ULLONG_MAX \<and> Entry (ds ! u) u \<notin> Q \<longrightarrow>
        (\<forall>e \<in> set (out_edges g u).
           unat (ds ! u) + unat (edge_w e) < unat B \<longrightarrow> ds ! edge_to e \<le> ds ! u + edge_w e))"

definition L_inv :: "Graph \<Rightarrow> (nat \<times> U64) set \<Rightarrow> U64 \<Rightarrow> ('c::len) word state \<Rightarrow> Entry set \<Rightarrow> bool" where
  "L_inv g S B st Q \<longleftrightarrow>
     (\<forall>v < g_n g. dist st ! v \<noteq> ULLONG_MAX \<longrightarrow>
         dist st ! v < B \<and> path_to g S v (unat (dist st ! v))) \<and>
     (\<forall>(s, d0) \<in> S. dist st ! s \<le> d0) \<and>
     closed g B (dist st) Q \<and>
     (\<forall>e \<in> set (pq st). e_d e < B)"

lemma add_below_bound:
  fixes d0 w B :: U64
  assumes "unat d0 + unat w < unat B"
  shows "unat (d0 + w) = unat d0 + unat w" "d0 + w < B"
proof -
  have "unat B < 2 ^ LENGTH(64)" by (rule unsigned_less)
  with assms have "unat d0 + unat w < 2 ^ LENGTH(64)" by linarith
  then show u: "unat (d0 + w) = unat d0 + unat w" by (rule unat_add_lem[THEN iffD1])
  show "d0 + w < B" unfolding word_less_nat_alt u by (rule assms)
qed

lemma visit_L:
  fixes st :: "('c::len) word state"
  assumes v: "visit push g B cur st = Inr (c, s')" and push: "push_ok push"
    and wf: "wf_graph g" and nov: "no_overflow g B" and ok: "st_ok g st"
    and cur: "e_d cur < B" "e_v cur < g_n g"
    and L: "L_inv g S B st (insert cur (set (pq st)))"
  shows "c \<and> L_inv g S B s' (set (pq s'))"
  using v
proof (cases rule: visit_elim)
  case stale
  have "closed g B (dist st) (set (pq st))"
    unfolding closed_def
  proof (intro allI impI ballI)
    fix u e
    assume u: "u < g_n g" and a: "dist st ! u \<noteq> ULLONG_MAX \<and> Entry (dist st ! u) u \<notin> set (pq st)"
      and e: "e \<in> set (out_edges g u)" and b: "unat (dist st ! u) + unat (edge_w e) < unat B"
    have "Entry (dist st ! u) u \<noteq> cur" using stale(2) by auto
    with a L u e b show "dist st ! edge_to e \<le> dist st ! u + edge_w e"
      unfolding L_inv_def closed_def by blast
  qed
  with stale L show ?thesis by (simp add: L_inv_def)
next
  case break
  with cur show ?thesis by simp
next
  case (relax s1)
  let ?v0 = "e_v cur" and ?d0 = "e_d cur"
  let ?eis = "[g_head g ! e_v cur ..< g_head g ! (e_v cur + 1)]"
  note r = relax(11)
  from ok have len: "length (dist st) = g_n g" by (simp add: st_ok_def)
  from relax_edges_dist[OF r push] relax(6,7) have
    D1: "length (dist s') = length (dist st)" and D2: "set (pq st) \<subseteq> set (pq s')"
    and D3: "\<And>i. dist s' ! i \<le> dist st ! i"
    and D4: "\<And>i. dist s' ! i \<noteq> dist st ! i \<Longrightarrow>
         Entry (dist s' ! i) i \<in> set (pq s') \<and> dist s' ! i < B \<and>
         (\<exists>ei \<in> set ?eis. ei < length (g_edges g) \<and> edge_to (g_edges g ! ei) = i \<and>
                          dist s' ! i = ?d0 + edge_w (g_edges g ! ei))"
    by auto
  from L have L1: "\<And>v. v < g_n g \<Longrightarrow> dist st ! v \<noteq> ULLONG_MAX \<Longrightarrow>
         dist st ! v < B \<and> path_to g S v (unat (dist st ! v))"
    and L3: "\<And>s d0. (s, d0) \<in> S \<Longrightarrow> dist st ! s \<le> d0"
    and L4: "closed g B (dist st) (insert cur (set (pq st)))"
    and J1: "\<And>e. e \<in> set (pq st) \<Longrightarrow> e_d e < B"
    by (auto simp: L_inv_def)
  have d0: "dist st ! ?v0 = ?d0" using relax(3) by simp
  have p0: "path_to g S ?v0 (unat ?d0)"
    using L1[OF cur(2)] d0 less_not_ULLONG_MAX[OF cur(1)] by simp
  have N1: "dist s' ! v < B \<and> path_to g S v (unat (dist s' ! v))"
    if vn: "v < g_n g" and nm: "dist s' ! v \<noteq> ULLONG_MAX" for v
  proof (cases "dist s' ! v = dist st ! v")
    case True
    with L1[OF vn] nm show ?thesis by simp
  next
    case False
    from D4[OF False] obtain ei where ei: "ei \<in> set ?eis" "ei < length (g_edges g)"
      "edge_to (g_edges g ! ei) = v" "dist s' ! v = ?d0 + edge_w (g_edges g ! ei)"
      and lt: "dist s' ! v < B" by blast
    have "g_edges g ! ei \<in> set (out_edges g ?v0)" using ei(1) by (auto simp: out_edges_iff)
    from path_to.edge[OF p0 cur(2) this] ei(3)
    have "path_to g S v (unat ?d0 + unat (edge_w (g_edges g ! ei)))" by simp
    with no_overflow_edge(1)[OF nov ei(2) cur(1)] ei(4) lt show ?thesis by simp
  qed
  have N3: "dist s' ! s \<le> d" if "(s, d) \<in> S" for s d
    using L3[OF that] D3[of s] by simp
  have N5: "e_d e < B" if "e \<in> set (pq s')" for e
    using relax_edges_pq[OF r push] that J1 relax(7) by auto
  have N4: "closed g B (dist s') (set (pq s'))"
    unfolding closed_def
  proof (intro allI impI ballI)
    fix u e
    assume u: "u < g_n g"
      and a: "dist s' ! u \<noteq> ULLONG_MAX \<and> Entry (dist s' ! u) u \<notin> set (pq s')"
      and e: "e \<in> set (out_edges g u)" and b: "unat (dist s' ! u) + unat (edge_w e) < unat B"
    from a D4[of u] have same: "dist s' ! u = dist st ! u" by blast
    show "dist s' ! edge_to e \<le> dist s' ! u + edge_w e"
    proof (cases "u = ?v0")
      case True
      from e obtain ei where ei: "ei \<in> set ?eis" "e = g_edges g ! ei"
        using True by (auto simp: out_edges_iff)
      from b same True d0 have "unat ?d0 + unat (edge_w e) < unat B" by simp
      from add_below_bound(2)[OF this] have "?d0 + edge_w e < B" .
      with relax_edges_done[OF r push] ei have "dist s' ! edge_to e \<le> ?d0 + edge_w e" by blast
      with same True d0 show ?thesis by simp
    next
      case False
      then have "Entry (dist st ! u) u \<noteq> cur" by auto
      moreover from a same D2 have "Entry (dist st ! u) u \<notin> set (pq st)" by auto
      moreover from a same have "dist st ! u \<noteq> ULLONG_MAX" by simp
      ultimately have "dist st ! edge_to e \<le> dist st ! u + edge_w e"
        using L4 u e b same unfolding closed_def by auto
      with D3[of "edge_to e"] same show ?thesis by simp
    qed
  qed
  from N1 N3 N4 N5 relax(5) show ?thesis unfolding L_inv_def by auto
qed

lemma lower_bound:
  assumes p: "path_to g S v l" and l: "l < unat B"
    and wf: "wf_graph g" and len: "length ds = g_n g"
    and S: "\<forall>(s, d0) \<in> S. s < g_n g \<and> ds ! s \<le> d0"
    and cl: "closed g B ds {}"
  shows "v < g_n g \<and> ds ! v \<noteq> ULLONG_MAX \<and> unat (ds ! v) \<le> l"
  using p l
proof (induction rule: path_to.induct)
  case (start s d0)
  with S have s: "s < g_n g" "ds ! s \<le> d0" by auto
  from s(2) have u: "unat (ds ! s) \<le> unat d0" by (simp add: word_le_nat_alt)
  with start(2) have "ds ! s < B" by (simp add: word_less_nat_alt)
  with s u show ?case by (simp add: less_not_ULLONG_MAX)
next
  case (edge u l e)
  from edge.prems have "l < unat B" by simp
  from edge.IH[OF this] have u: "u < g_n g" "ds ! u \<noteq> ULLONG_MAX" "unat (ds ! u) \<le> l" by simp_all
  from u(3) edge.prems have b: "unat (ds ! u) + unat (edge_w e) < unat B" by simp
  with cl u(1,2) edge.hyps(3) have le: "ds ! edge_to e \<le> ds ! u + edge_w e"
    unfolding closed_def by blast
  note ab = add_below_bound[OF b]
  from le ab(1) have "unat (ds ! edge_to e) \<le> unat (ds ! u) + unat (edge_w e)"
    by (simp add: word_le_nat_alt)
  with u(3) have 1: "unat (ds ! edge_to e) \<le> l + unat (edge_w e)" by simp
  from le ab(2) have "ds ! edge_to e < B" by simp
  then have 2: "ds ! edge_to e \<noteq> ULLONG_MAX" by (rule less_not_ULLONG_MAX)
  from edge.hyps(3) obtain ei where "ei \<in> set [g_head g ! u ..< g_head g ! (u + 1)]"
    "e = g_edges g ! ei" by (auto simp: out_edges_iff)
  with wf_graph_range(2)[OF wf u(1)] have 3: "edge_to e < g_n g" by blast
  from 1 2 3 show ?case by simp
qed

lemma L_inv_final:
  fixes st :: "('c::len) word state"
  assumes L: "L_inv g S B st {}" and wf: "wf_graph g" and ok: "st_ok g st"
    and S: "\<forall>(s, d0) \<in> S. s < g_n g"
    and v: "v < g_n g" "dist st ! v < B"
  shows "shortest g S v (unat (dist st ! v))"
proof -
  from L have L1: "\<And>v. v < g_n g \<Longrightarrow> dist st ! v \<noteq> ULLONG_MAX \<Longrightarrow>
         dist st ! v < B \<and> path_to g S v (unat (dist st ! v))"
    and L3: "\<forall>(s, d0) \<in> S. dist st ! s \<le> d0"
    and L4: "closed g B (dist st) {}"
    by (auto simp: L_inv_def)
  from L1[OF v(1)] less_not_ULLONG_MAX[OF v(2)]
  have p: "path_to g S v (unat (dist st ! v))" by simp
  have "unat (dist st ! v) \<le> l" if pl: "path_to g S v l" for l
  proof (cases "l < unat B")
    case True
    from ok have len: "length (dist st) = g_n g" by (simp add: st_ok_def)
    from S L3 have "\<forall>(s, d0) \<in> S. s < g_n g \<and> dist st ! s \<le> d0" by auto
    from lower_bound[OF pl True wf len this L4] show ?thesis by simp
  next
    case False
    moreover from v(2) have "unat (dist st ! v) < unat B" by (simp add: word_less_nat_alt)
    ultimately show ?thesis by simp
  qed
  with p show ?thesis by (simp add: shortest_def)
qed

lemma cpp_loop_L:
  fixes st :: cpp_state
  assumes wf: "wf_graph g" and nov: "no_overflow g B" and ok: "st_ok g st"
    and L: "L_inv g S B st (set (pq st))"
  shows "\<exists>st'. cpp_loop g B st = Inr st' \<and> st_ok g st' \<and> L_inv g S B st' {}"
proof (rule cpp_loop_rule[where P = "\<lambda>s. st_ok g s \<and> L_inv g S B s (set (pq s))"])
  show "st_ok g st \<and> L_inv g S B st (set (pq st))" using ok L by simp
next
  fix s :: cpp_state
  assume a: "st_ok g s \<and> L_inv g S B s (set (pq s))" and ne: "pq s \<noteq> []"
  let ?cur = "pq_top (pq s)" and ?s1 = "s\<lparr>pq := pq_pop (pq s)\<rparr>"
  note po = cpp_pop_ok[OF conjunct1[OF a] ne]
  from visit_ok[OF wf push_ok_pq_push po, of B] obtain c s' where
    v: "visit pq_push g B ?cur ?s1 = Inr (c, s')" and ok': "st_ok g s'" by blast
  from mset_pq_pop[OF ne] have sq: "set (pq s) = insert ?cur (set (pq_pop (pq s)))"
    by (metis set_mset_add_mset_insert set_mset_mset)
  from a sq have cur: "e_d ?cur < B" by (auto simp: L_inv_def)
  from a sq have L1: "L_inv g S B ?s1 (insert ?cur (set (pq ?s1)))"
    by (auto simp: L_inv_def)
  from visit_L[OF v push_ok_pq_push wf nov po(1) cur po(2) L1] v ok'
  show "\<exists>c s'. visit pq_push g B ?cur ?s1 = Inr (c, s') \<and>
      (c \<longrightarrow> st_ok g s' \<and> L_inv g S B s' (set (pq s'))) \<and>
      (\<not> c \<longrightarrow> st_ok g s' \<and> L_inv g S B s' {})"
    by blast
next
  fix s :: cpp_state
  assume "st_ok g s \<and> L_inv g S B s (set (pq s))" "pq s = []"
  then show "st_ok g s \<and> L_inv g S B s {}" by simp
qed

lemma c_loop_L:
  fixes st :: c_state
  assumes wf: "wf_graph g" and nov: "no_overflow g B" and ok: "st_ok g st"
    and L: "L_inv g S B st (set (pq st))"
  shows "\<exists>st'. c_loop g B st = Inr st' \<and> st_ok g st' \<and> L_inv g S B st' {}"
proof (rule c_loop_rule[where P = "\<lambda>s. st_ok g s \<and> L_inv g S B s (set (pq s))"])
  show "st_ok g st \<and> L_inv g S B st (set (pq st))" using ok L by simp
next
  fix s :: c_state and cur h'
  assume a: "st_ok g s \<and> L_inv g S B s (set (pq s))" and hp: "heap_pop (pq s) = Some (cur, h')"
  let ?s1 = "s\<lparr>pq := h'\<rparr>"
  note po = c_pop_ok[OF conjunct1[OF a] hp]
  from visit_ok[OF wf push_ok_heap_push po, of B] obtain c s' where
    v: "visit heap_push g B cur ?s1 = Inr (c, s')" and ok': "st_ok g s'" by blast
  note sq = heap_pop_set[OF hp]
  from a sq have cur: "e_d cur < B" by (auto simp: L_inv_def)
  from a sq have L1: "L_inv g S B ?s1 (insert cur (set (pq ?s1)))"
    by (auto simp: L_inv_def)
  from visit_L[OF v push_ok_heap_push wf nov po(1) cur po(2) L1] v ok'
  show "\<exists>c s'. visit heap_push g B cur ?s1 = Inr (c, s') \<and>
      (c \<longrightarrow> st_ok g s' \<and> L_inv g S B s' (set (pq s'))) \<and>
      (\<not> c \<longrightarrow> st_ok g s' \<and> L_inv g S B s' {})"
    by blast
next
  fix s :: c_state
  assume "st_ok g s \<and> L_inv g S B s (set (pq s))" "pq s = []"
  then show "st_ok g s \<and> L_inv g S B s {}" by simp
qed

lemma cpp_trial_shortest:
  assumes wf: "wf_graph g" and src: "sources_ok g src" and dst: "distinct (map fst src)"
    and nov: "no_overflow g B"
  shows "\<exists>st. cpp_trial g src B = Inr st \<and>
     (\<forall>v < g_n g. dist st ! v < B \<longrightarrow> shortest g (set (active B src)) v (unat (dist st ! v)))"
proof -
  let ?S = "set (active B src)"
  from cpp_init_spec[OF src, of B] dst obtain st0 where
    r: "cpp_init g src B = Inr st0" and len: "length (dist st0) = g_n g"
    and q: "mset (pq st0) = mset (map (\<lambda>(s, d0). Entry d0 s) (active B src))"
    and inact: "\<forall>i < g_n g. i \<notin> fst ` ?S \<longrightarrow> dist st0 ! i = ULLONG_MAX"
    and act: "\<forall>(s, d0) \<in> ?S. dist st0 ! s = d0"
    by blast
  have sq: "set (pq st0) = (\<lambda>(s, d0). Entry d0 s) ` ?S"
    using q by (metis set_map set_mset_mset)
  have lt: "d0 < B" if "(s, d0) \<in> ?S" for s d0 using that by (auto simp: active_def)
  have known: "\<exists>d0. (v, d0) \<in> ?S \<and> dist st0 ! v = d0"
    if "v < g_n g" "dist st0 ! v \<noteq> ULLONG_MAX" for v
  proof -
    from that inact have "v \<in> fst ` ?S" by blast
    then obtain d0 where "(v, d0) \<in> ?S" by auto
    with act show ?thesis by auto
  qed
  have L: "L_inv g ?S B st0 (set (pq st0))"
    unfolding L_inv_def closed_def
  proof (intro conjI allI impI ballI)
    fix v assume "v < g_n g" "dist st0 ! v \<noteq> ULLONG_MAX"
    from known[OF this] obtain d0 where d: "(v, d0) \<in> ?S" "dist st0 ! v = d0" by blast
    from lt[OF d(1)] d(2) show "dist st0 ! v < B" by simp
    from path_to.start[OF d(1)] d(2) show "path_to g ?S v (unat (dist st0 ! v))" by simp
  next
    fix x assume "x \<in> ?S"
    with act show "case x of (s, d0) \<Rightarrow> dist st0 ! s \<le> d0" by auto
  next
    fix u e
    assume "u < g_n g" "dist st0 ! u \<noteq> ULLONG_MAX \<and> Entry (dist st0 ! u) u \<notin> set (pq st0)"
    with known[of u] sq have False by force
    then show "dist st0 ! edge_to e \<le> dist st0 ! u + edge_w e" ..
  next
    fix e assume "e \<in> set (pq st0)"
    with sq lt show "e_d e < B" by auto
  qed
  from cpp_loop_L[OF wf nov cpp_init_st_ok[OF src r] L] obtain st where
    l: "cpp_loop g B st0 = Inr st" and ok: "st_ok g st" and Lf: "L_inv g ?S B st {}" by blast
  have S: "\<forall>(s, d0) \<in> ?S. s < g_n g"
    using src by (auto simp: sources_ok_def list_all_iff active_def)
  from L_inv_final[OF Lf wf ok S] r l show ?thesis by (simp add: cpp_trial_def)
qed

lemma c_trial_shortest:
  assumes wf: "wf_graph g" and src: "list_all (\<lambda>s. s < g_n g) sources"
    and nov: "no_overflow g B"
  shows "\<exists>st. c_trial g sources B = Inr st \<and>
     (\<forall>v < g_n g. dist st ! v < B \<longrightarrow>
        shortest g ((\<lambda>s. (s, 0)) ` set sources) v (unat (dist st ! v)))"
proof (cases "B = 0")
  case True
  from c_trial_b_prime[OF wf src, of B] obtain st where "c_trial g sources B = Inr st" by blast
  with True show ?thesis by simp
next
  case False
  then have B: "0 < B" by (simp add: word_gt_0)
  let ?S = "(\<lambda>s. (s, 0 :: U64)) ` set sources"
  from c_init_spec[OF src] obtain st0 where
    r: "c_init g sources = Inr st0" and len: "length (dist st0) = g_n g"
    and q: "mset (pq st0) = mset (map (Entry 0) sources)"
    and inact: "\<forall>i < g_n g. i \<notin> set sources \<longrightarrow> dist st0 ! i = ULLONG_MAX"
    and act: "\<forall>i \<in> set sources. dist st0 ! i = 0"
    by blast
  have sq: "set (pq st0) = Entry 0 ` set sources" using q by (metis set_map set_mset_mset)
  have known: "v \<in> set sources \<and> dist st0 ! v = 0"
    if "v < g_n g" "dist st0 ! v \<noteq> ULLONG_MAX" for v
    using that inact act by blast
  have L: "L_inv g ?S B st0 (set (pq st0))"
    unfolding L_inv_def closed_def
  proof (intro conjI allI impI ballI)
    fix v assume "v < g_n g" "dist st0 ! v \<noteq> ULLONG_MAX"
    from known[OF this] have d: "v \<in> set sources" "dist st0 ! v = 0" by simp_all
    from B d(2) show "dist st0 ! v < B" by simp
    from d(1) have "(v, 0) \<in> ?S" by simp
    from path_to.start[OF this] d(2) show "path_to g ?S v (unat (dist st0 ! v))" by simp
  next
    fix x assume "x \<in> ?S"
    with act show "case x of (s, d0) \<Rightarrow> dist st0 ! s \<le> d0" by auto
  next
    fix u e
    assume "u < g_n g" "dist st0 ! u \<noteq> ULLONG_MAX \<and> Entry (dist st0 ! u) u \<notin> set (pq st0)"
    with known[of u] sq have False by force
    then show "dist st0 ! edge_to e \<le> dist st0 ! u + edge_w e" ..
  next
    fix e assume "e \<in> set (pq st0)"
    with sq B show "e_d e < B" by auto
  qed
  from c_loop_L[OF wf nov c_init_st_ok[OF src r] L] obtain st where
    l: "c_loop g B st0 = Inr st" and ok: "st_ok g st" and Lf: "L_inv g ?S B st {}" by blast
  have S: "\<forall>(s, d0) \<in> ?S. s < g_n g" using src by (auto simp: list_all_iff)
  from L_inv_final[OF Lf wf ok S] r l show ?thesis by (simp add: c_trial_def)
qed


lemma path_positive:
  assumes "path_to g S v l" "wf_graph g" "list_all (\<lambda>e. 0 < edge_w e) (g_edges g)"
  shows "(\<exists>d0. (v, d0) \<in> S \<and> l = unat d0) \<or> 0 < l"
  using assms(1)
proof (induction rule: path_to.induct)
  case (start s d0)
  then show ?case by auto
next
  case (edge u l e)
  from edge.hyps(3) obtain ei where ei: "ei \<in> set [g_head g ! u ..< g_head g ! (u + 1)]"
    "e = g_edges g ! ei" by (auto simp: out_edges_iff)
  from wf_graph_range(1)[OF assms(2) edge.hyps(2) ei(1)] ei(2) assms(3)
  have "0 < edge_w e" by (simp add: list_all_length)
  then have "0 < unat (edge_w e)" by (simp add: word_less_nat_alt)
  then show ?case by simp
qed

section \<open>Example inputs\<close>

text \<open>A path graph on three nodes, \<open>0 \<rightarrow> 1 \<rightarrow> 2\<close>, with weights 1.\<close>

definition g_line :: Graph where
  "g_line = \<lparr>g_head = [0, 1, 2, 2], g_edges = [Edge 1 1, Edge 2 1], g_n = 3, g_m = 2\<rparr>"

text \<open>A graph on four nodes: \<open>0 \<rightarrow> 1\<close> (5), \<open>0 \<rightarrow> 2\<close> (2), \<open>1 \<rightarrow> 3\<close> (1), \<open>2 \<rightarrow> 1\<close> (1).\<close>

definition g_diamond :: Graph where
  "g_diamond =
     \<lparr>g_head = [0, 2, 3, 4, 4], g_edges = [Edge 1 5, Edge 2 2, Edge 3 1, Edge 1 1],
      g_n = 4, g_m = 4\<rparr>"


text \<open>Two nodes and the edge \<open>0 \<rightarrow> 1\<close> whose weight is the largest 64-bit number.\<close>

definition g_maxw :: Graph where
  "g_maxw = \<lparr>g_head = [0, 1, 1], g_edges = [Edge 1 ULLONG_MAX], g_n = 2, g_m = 1\<rparr>"

text \<open>Three nodes, \<open>0 \<rightarrow> 1\<close> of weight 1 and \<open>1 \<rightarrow> 2\<close> of the largest weight.\<close>

definition g_wrap :: Graph where
  "g_wrap = \<lparr>g_head = [0, 1, 2, 2], g_edges = [Edge 1 1, Edge 2 ULLONG_MAX], g_n = 3, g_m = 2\<rparr>"

section \<open>Claims about the queues\<close>

text \<open>Claim C10. The C binary heap is correct: after every sequence of
  \<^verbatim>\<open>heap_push\<close> and \<^verbatim>\<open>heap_pop\<close> calls the heap ordering property holds (each
  parent's distance is at most each child's), a further push keeps it and adds
  exactly the pushed entry, \<^verbatim>\<open>heap_pop\<close> on an empty heap returns 0 and produces
  no entry, and \<^verbatim>\<open>heap_pop\<close> on a non-empty heap returns an entry of the heap
  whose distance is minimal among all entries in the heap, removes exactly that
  entry and leaves a heap that satisfies the ordering property.\<close>

theorem c_heap_correct:
  "is_heap (run_heap_ops ops) \<and>
   is_heap (heap_push (run_heap_ops ops) e) \<and>
   mset (heap_push (run_heap_ops ops) e) = add_mset e (mset (run_heap_ops ops)) \<and>
   (run_heap_ops ops = [] \<longrightarrow> heap_pop (run_heap_ops ops) = None) \<and>
   (run_heap_ops ops \<noteq> [] \<longrightarrow>
      (\<exists>out h'. heap_pop (run_heap_ops ops) = Some (out, h') \<and>
         out \<in> set (run_heap_ops ops) \<and>
         (\<forall>x \<in> set (run_heap_ops ops). e_d out \<le> e_d x) \<and>
         mset (run_heap_ops ops) = add_mset out (mset h') \<and>
         is_heap h'))"
  using is_heap_run_heap_ops[of ops] heap_pop_spec[of "run_heap_ops ops"]
  by (simp add: is_heap_heap_push mset_heap_push heap_pop_empty)

theorem c_heap_correct_witness:
  "run_heap_ops [Push (Entry 5 0), Push (Entry 3 1), Push (Entry 7 2), Pop, Push (Entry 3 4)]
     = [Entry 3 4, Entry 7 2, Entry 5 0] \<and>
   run_heap_ops [Push (Entry 5 0), Push (Entry 3 1), Push (Entry 7 2), Pop, Push (Entry 3 4)] \<noteq> [] \<and>
   is_heap (run_heap_ops [Push (Entry 5 0), Push (Entry 3 1), Push (Entry 7 2), Pop, Push (Entry 3 4)]) \<and>
   (\<exists>out h'. heap_pop (run_heap_ops [Push (Entry 5 0), Push (Entry 3 1), Push (Entry 7 2), Pop, Push (Entry 3 4)])
        = Some (out, h') \<and> e_d out = 3 \<and> is_heap h') \<and>
   run_heap_ops [Push (Entry 1 0), Pop] = [] \<and>
   heap_pop (run_heap_ops [Push (Entry 1 0), Pop]) = None"
proof -
  let ?ops = "[Push (Entry 5 0), Push (Entry 3 1), Push (Entry 7 2), Pop, Push (Entry 3 4)]"
  have r: "run_heap_ops ?ops = [Entry 3 4, Entry 7 2, Entry 5 0]" by code_simp
  have r2: "run_heap_ops [Push (Entry 1 0), Pop] = []" by code_simp
  have p: "heap_pop [Entry 3 4, Entry 7 2, Entry 5 0] = Some (Entry 3 4, [Entry 5 0, Entry 7 2])"
    by code_simp
  from c_heap_correct[of ?ops "Entry 0 0"] c_heap_correct[of "[Push (Entry 1 0), Pop]" "Entry 0 0"]
  show ?thesis unfolding r r2 p by auto
qed

text \<open>Claim C7, as amended. The C++ priority queue pops in lexicographic
  (distance, node id) order: \<^verbatim>\<open>top()\<close> is an entry of the queue that is
  lexicographically least, and \<^verbatim>\<open>pop()\<close> removes exactly it. The C heap compares
  distances only: \<^verbatim>\<open>heap_pop\<close> returns an entry of least distance; among entries
  of equal distance the heap layout, not the node id, decides.\<close>

theorem pop_order:
  "(q \<noteq> [] \<longrightarrow> pq_top q \<in> set q \<and> (\<forall>x \<in> set q. lex_le (pq_top q) x) \<and>
       mset q = add_mset (pq_top q) (mset (pq_pop q))) \<and>
   (is_heap h \<and> h \<noteq> [] \<longrightarrow>
      (\<exists>out h'. heap_pop h = Some (out, h') \<and> out \<in> set h \<and>
         (\<forall>x \<in> set h. e_d out \<le> e_d x) \<and> mset h = add_mset out (mset h')))"
  using heap_pop_spec[of h] by (auto simp: pq_top_in pq_top_least mset_pq_pop)

theorem pop_order_witness:
  "[Entry 0 1, Entry 0 0, Entry 1 0] \<noteq> [] \<and>
   pq_top [Entry 0 1, Entry 0 0, Entry 1 0] = Entry 0 0 \<and>
   lex_le (pq_top [Entry 0 1, Entry 0 0, Entry 1 0]) (Entry 0 1) \<and>
   pq_pop [Entry 0 1, Entry 0 0, Entry 1 0] = [Entry 0 1, Entry 1 0] \<and>
   is_heap [Entry 0 1, Entry 0 0] \<and>
   (\<exists>out h'. heap_pop [Entry 0 1, Entry 0 0] = Some (out, h') \<and> e_d out = 0)"
proof -
  have h: "is_heap [Entry 0 1, Entry 0 0]" by code_simp
  have t: "pq_top [Entry 0 1, Entry 0 0, Entry 1 0] = Entry 0 0" by code_simp
  have p: "pq_pop [Entry 0 1, Entry 0 0, Entry 1 0] = [Entry 0 1, Entry 1 0]" by code_simp
  have hp: "heap_pop [Entry 0 1, Entry 0 0] = Some (Entry 0 1, [Entry 0 0])" by code_simp
  from pop_order[of "[Entry 0 1, Entry 0 0, Entry 1 0]" "[Entry 0 1, Entry 0 0]"] h
  show ?thesis unfolding t p hp by simp
qed

text \<open>The claim as stated fails for the C heap: after pushing \<open>(0, 1)\<close> and then
  \<open>(0, 0)\<close>, \<^verbatim>\<open>heap_pop\<close> returns \<open>(0, 1)\<close> although \<open>(0, 0)\<close> has the same distance
  and the smaller node id.\<close>

theorem pop_order_counterexample:
  "heap_push (heap_push heap_init (Entry 0 1)) (Entry 0 0) = [Entry 0 1, Entry 0 0] \<and>
   heap_pop [Entry 0 1, Entry 0 0] = Some (Entry 0 1, [Entry 0 0])"
  by code_simp

section \<open>Claims about initialisation\<close>

text \<open>Claim C3, as amended. main.cpp: for source pairs with unique node ids
  below \<open>n\<close> and every bound \<open>B\<close>, initialisation succeeds, and for every
  supplied pair \<open>(s, d0)\<close>: when \<open>d0 < B\<close> it sets \<open>dist[s] = d0\<close> and pushes
  \<open>(d0, s)\<close>; when \<open>d0 >= B\<close> it leaves \<open>dist[s]\<close> at the sentinel and pushes
  nothing (the queue holds exactly the entries of the pairs with \<open>d0 < B\<close>).
  main.c has no initial distances and no guard: for source ids below \<open>n\<close> it sets
  \<open>dist[s] = 0\<close> and pushes \<open>(0, s)\<close> for every source, whatever \<open>B\<close> is.\<close>

theorem init_sources:
  "(sources_ok g src \<and> distinct (map fst src) \<longrightarrow>
      (\<exists>st. cpp_init g src B = Inr st \<and>
         (\<forall>(s, d0) \<in> set src.
            (d0 < B \<longrightarrow> dist st ! s = d0 \<and> Entry d0 s \<in> set (pq st)) \<and>
            (\<not> d0 < B \<longrightarrow> dist st ! s = ULLONG_MAX \<and> Entry d0 s \<notin> set (pq st))) \<and>
         mset (pq st) = mset (map (\<lambda>(s, d0). Entry d0 s) (active B src)))) \<and>
   (list_all (\<lambda>s. s < g_n g) sources \<longrightarrow>
      (\<exists>st. c_init g sources = Inr st \<and>
         (\<forall>s \<in> set sources. dist st ! s = 0 \<and> Entry 0 s \<in> set (pq st)) \<and>
         mset (pq st) = mset (map (Entry 0) sources)))"
proof (intro conjI impI)
  assume a: "sources_ok g src \<and> distinct (map fst src)"
  from cpp_init_spec[of g src B] a obtain st where
    r: "cpp_init g src B = Inr st"
    and q: "mset (pq st) = mset (map (\<lambda>(s, d0). Entry d0 s) (active B src))"
    and inact: "\<forall>i < g_n g. i \<notin> fst ` set (active B src) \<longrightarrow> dist st ! i = ULLONG_MAX"
    and act: "\<forall>(s, d0) \<in> set (active B src). dist st ! s = d0"
    by blast
  have sq: "set (pq st) = (\<lambda>(s, d0). Entry d0 s) ` set (active B src)"
    using q by (metis set_map set_mset_mset)
  have "(d0 < B \<longrightarrow> dist st ! s = d0 \<and> Entry d0 s \<in> set (pq st)) \<and>
        (\<not> d0 < B \<longrightarrow> dist st ! s = ULLONG_MAX \<and> Entry d0 s \<notin> set (pq st))"
    if m: "(s, d0) \<in> set src" for s d0
  proof (cases "d0 < B")
    case True
    with m have "(s, d0) \<in> set (active B src)" by (simp add: active_def)
    with act sq True show ?thesis by force
  next
    case False
    from m a have sn: "s < g_n g" by (auto simp: sources_ok_def list_all_iff)
    have "s \<notin> fst ` set (active B src)"
    proof
      assume "s \<in> fst ` set (active B src)"
      then obtain d1 where d1: "(s, d1) \<in> set src" "d1 < B" by (auto simp: active_def)
      from a have "distinct (map fst src)" by simp
      with m d1(1) have "d1 = d0" by (meson eq_key_imp_eq_value)
      with d1(2) False show False by simp
    qed
    with inact sn have 1: "dist st ! s = ULLONG_MAX" by blast
    have "Entry d0 s \<notin> set (pq st)" using sq False by (auto simp: active_def)
    with 1 False show ?thesis by simp
  qed
  with r q show "\<exists>st. cpp_init g src B = Inr st \<and>
         (\<forall>(s, d0) \<in> set src.
            (d0 < B \<longrightarrow> dist st ! s = d0 \<and> Entry d0 s \<in> set (pq st)) \<and>
            (\<not> d0 < B \<longrightarrow> dist st ! s = ULLONG_MAX \<and> Entry d0 s \<notin> set (pq st))) \<and>
         mset (pq st) = mset (map (\<lambda>(s, d0). Entry d0 s) (active B src))"
    by blast
next
  assume a: "list_all (\<lambda>s. s < g_n g) sources"
  from c_init_spec[OF a] obtain st where
    r: "c_init g sources = Inr st"
    and q: "mset (pq st) = mset (map (Entry 0) sources)"
    and z: "\<forall>i \<in> set sources. dist st ! i = 0" by blast
  have "set (pq st) = Entry 0 ` set sources" using q by (metis set_map set_mset_mset)
  with r q z show "\<exists>st. c_init g sources = Inr st \<and>
         (\<forall>s \<in> set sources. dist st ! s = 0 \<and> Entry 0 s \<in> set (pq st)) \<and>
         mset (pq st) = mset (map (Entry 0) sources)" by auto
qed

theorem init_sources_witness:
  "sources_ok g_line [(0, 5), (2, 20)] \<and> distinct (map fst [(0 :: nat, 5 :: U64), (2, 20)]) \<and>
   list_all (\<lambda>s. s < g_n g_line) [0, 2] \<and>
   map_sum id dist (cpp_init g_line [(0, 5), (2, 20)] 10) = Inr [5, ULLONG_MAX, ULLONG_MAX] \<and>
   map_sum id pq (cpp_init g_line [(0, 5), (2, 20)] 10) = Inr [Entry 5 0] \<and>
   map_sum id dist (c_init g_line [0, 2]) = Inr [0, ULLONG_MAX, 0] \<and>
   (\<exists>st. c_init g_line [0, 2] = Inr st \<and> mset (pq st) = mset (map (Entry 0) [0, 2]))"
proof -
  have 1: "sources_ok g_line [(0, 5), (2, 20)]" by code_simp
  have 2: "list_all (\<lambda>s. s < g_n g_line) [0, 2]" by code_simp
  have 3: "map_sum id dist (cpp_init g_line [(0, 5), (2, 20)] 10) = Inr [5, ULLONG_MAX, ULLONG_MAX]"
    by code_simp
  have 4: "map_sum id pq (cpp_init g_line [(0, 5), (2, 20)] 10) = Inr [Entry 5 0]"
    by code_simp
  have 5: "map_sum id dist (c_init g_line [0, 2]) = Inr [0, ULLONG_MAX, 0]" by code_simp
  from init_sources[of g_line "[(0, 5), (2, 20)]" 10 "[0, 2]"] 1 2 3 4 5
  show ?thesis by auto
qed

text \<open>The claim as stated fails for main.c. A sources file with the one record
  \<open>(s, d0) = (0, 5)\<close> yields the source list \<open>[0]\<close>; initialisation then sets
  \<open>dist[0] = 0\<close>, not 5, and pushes \<open>(0, 0)\<close>. It does so for every bound, also
  for \<open>B = 0\<close>, where \<open>d0 >= B\<close>.\<close>

theorem init_sources_counterexample:
  "c_read_sources_file [1, 0, 5] = Inr [0] \<and>
   map_sum id dist (c_init g_line [0]) = Inr [0, ULLONG_MAX, ULLONG_MAX] \<and>
   map_sum id pq (c_init g_line [0]) = Inr [Entry 0 0]"
proof -
  have 1: "c_read_sources_file [1, 0, 5] = Inr [0]" by code_simp
  have 2: "map_sum id dist (c_init g_line [0]) = Inr [0, ULLONG_MAX, ULLONG_MAX] \<and>
     map_sum id pq (c_init g_line [0]) = Inr [Entry 0 0]"
    by code_simp
  from 1 2 show ?thesis by simp
qed

text \<open>Claim C8, as amended. main.c: for every graph and every non-empty list of
  source ids below \<open>n\<close> (all at initial distance 0), a run with \<open>B = 0\<close> pops a source
  entry \<open>(0, s)\<close>, which passes the staleness check and satisfies \<open>d >= B\<close>; the
  run ends at once with \<open>b_prime = 0\<close> and settled count 0. main.cpp: with \<open>B = 0\<close>
  the guard \<open>d0 < B\<close> admits no source, so nothing is pushed or popped; the run
  ends in the start state, with \<open>b_prime\<close> at the sentinel and settled count 0.\<close>

theorem zero_bound:
  "(sources \<noteq> [] \<and> list_all (\<lambda>s. s < g_n g) sources \<longrightarrow>
      (\<exists>st s. c_trial g sources 0 = Inr st \<and> s \<in> set sources \<and>
         trace st = [Fresh 0 s] \<and> b_prime st = 0 \<and> popped st = 0)) \<and>
   cpp_trial g src 0 = Inr (start_state g)"
  using c_trial_zero[of sources g] cpp_trial_zero[of g src] by blast

theorem zero_bound_witness:
  "[0 :: nat, 2] \<noteq> [] \<and> list_all (\<lambda>s. s < g_n g_line) [0, 2] \<and>
   map_sum id trace (c_trial g_line [0, 2] 0) = Inr [Fresh 0 0] \<and>
   map_sum id b_prime (c_trial g_line [0, 2] 0) = Inr 0 \<and>
   map_sum id popped (c_trial g_line [0, 2] 0) = Inr 0 \<and>
   cpp_trial g_line [(0, 0), (2, 0)] 0 = Inr (start_state g_line)"
proof -
  have 1: "list_all (\<lambda>s. s < g_n g_line) [0, 2]" by code_simp
  have 2: "map_sum id trace (c_trial g_line [0, 2] 0) = Inr [Fresh 0 0]" by code_simp
  from zero_bound[of "[0, 2]" g_line "[(0, 0), (2, 0)]"] 1 2
  show ?thesis by auto
qed

text \<open>The claim as stated fails for main.cpp: with one source at distance 0 and
  \<open>B = 0\<close> no entry is popped and \<open>b_prime\<close> stays at the sentinel.\<close>

theorem zero_bound_counterexample:
  "map_sum id trace (cpp_trial g_line [(0, 0)] 0) = Inr [] \<and>
   map_sum id b_prime (cpp_trial g_line [(0, 0)] 0) = Inr ULLONG_MAX \<and>
   map_sum id popped (cpp_trial g_line [(0, 0)] 0) = Inr 0"
  by code_simp

section \<open>Claims about the final state\<close>

text \<open>Claim C4, as amended. For a well-formed graph and sources below \<open>n\<close> the
  trial returns, and: in main.cpp every entry of the final distance array is the
  sentinel or strictly less than \<open>B\<close>; in main.c every entry is the sentinel,
  strictly less than \<open>B\<close>, or the 0 that initialisation wrote for a source when
  \<open>B = 0\<close>.\<close>

theorem final_dist_below_bound:
  "(wf_graph g \<and> sources_ok g src \<longrightarrow>
      (\<exists>st. cpp_trial g src B = Inr st \<and>
         (\<forall>x \<in> set (dist st). x = ULLONG_MAX \<or> x < B))) \<and>
   (wf_graph g \<and> list_all (\<lambda>s. s < g_n g) sources \<longrightarrow>
      (\<exists>st. c_trial g sources B = Inr st \<and>
         (\<forall>x \<in> set (dist st). x = ULLONG_MAX \<or> x < B \<or> (B = 0 \<and> x = 0))))"
proof (intro conjI impI)
  assume a: "wf_graph g \<and> sources_ok g src"
  from cpp_init_spec[of g src B] a obtain st0 where
    r: "cpp_init g src B = Inr st0" and len: "length (dist st0) = g_n g"
    and inact: "\<forall>i < g_n g. i \<notin> fst ` set (active B src) \<longrightarrow> dist st0 ! i = ULLONG_MAX"
    and act: "\<forall>i \<in> fst ` set (active B src). \<exists>d0. (i, d0) \<in> set (active B src) \<and> dist st0 ! i = d0"
    by blast
  have b0: "\<forall>x \<in> set (dist st0). x = ULLONG_MAX \<or> x < B"
  proof
    fix x assume "x \<in> set (dist st0)"
    then obtain i where i: "i < g_n g" "x = dist st0 ! i" using len by (auto simp: in_set_conv_nth)
    show "x = ULLONG_MAX \<or> x < B"
    proof (cases "i \<in> fst ` set (active B src)")
      case True
      with act i show ?thesis by (auto simp: active_def)
    next
      case False
      with inact i show ?thesis by simp
    qed
  qed
  from cpp_loop_dist_all[OF conjunct1[OF a] cpp_init_st_ok[OF conjunct2[OF a] r] b0] r
  show "\<exists>st. cpp_trial g src B = Inr st \<and> (\<forall>x \<in> set (dist st). x = ULLONG_MAX \<or> x < B)"
    by (simp add: cpp_trial_def)
next
  assume a: "wf_graph g \<and> list_all (\<lambda>s. s < g_n g) sources"
  from c_init_spec[of g sources] a obtain st0 where
    r: "c_init g sources = Inr st0" and len: "length (dist st0) = g_n g"
    and inact: "\<forall>i < g_n g. i \<notin> set sources \<longrightarrow> dist st0 ! i = ULLONG_MAX"
    and act: "\<forall>i \<in> set sources. dist st0 ! i = 0"
    by blast
  have b0: "\<forall>x \<in> set (dist st0). x = ULLONG_MAX \<or> x < B \<or> (B = 0 \<and> x = 0)"
  proof
    fix x assume "x \<in> set (dist st0)"
    then obtain i where i: "i < g_n g" "x = dist st0 ! i" using len by (auto simp: in_set_conv_nth)
    show "x = ULLONG_MAX \<or> x < B \<or> (B = 0 \<and> x = 0)"
    proof (cases "i \<in> set sources")
      case True
      with act i have "x = 0" by simp
      then show ?thesis by (cases "B = 0") (auto simp: word_gt_0)
    next
      case False
      with inact i show ?thesis by simp
    qed
  qed
  from c_loop_dist_all[OF conjunct1[OF a] c_init_st_ok[OF conjunct2[OF a] r] b0, of B] r
  show "\<exists>st. c_trial g sources B = Inr st \<and>
         (\<forall>x \<in> set (dist st). x = ULLONG_MAX \<or> x < B \<or> (B = 0 \<and> x = 0))"
    by (simp add: c_trial_def)
qed

theorem final_dist_below_bound_witness:
  "wf_graph g_diamond \<and> sources_ok g_diamond [(0, 0)] \<and>
   list_all (\<lambda>s. s < g_n g_diamond) [0] \<and>
   map_sum id dist (cpp_trial g_diamond [(0, 0)] 4) = Inr [0, 3, 2, ULLONG_MAX] \<and>
   map_sum id dist (c_trial g_diamond [0] 4) = Inr [0, 3, 2, ULLONG_MAX] \<and>
   (\<exists>st. cpp_trial g_diamond [(0, 0)] 4 = Inr st \<and> list_all (\<lambda>x. x = ULLONG_MAX \<or> x < 4) (dist st)) \<and>
   (\<exists>st. c_trial g_diamond [0] 4 = Inr st \<and> list_all (\<lambda>x. x = ULLONG_MAX \<or> x < 4) (dist st))"
proof -
  have 1: "wf_graph g_diamond" by code_simp
  have 2: "sources_ok g_diamond [(0, 0)]" by code_simp
  have 3: "list_all (\<lambda>s. s < g_n g_diamond) [0]" by code_simp
  have 4: "map_sum id dist (cpp_trial g_diamond [(0, 0)] 4) = Inr [0, 3, 2, ULLONG_MAX]"
    by code_simp
  have 5: "map_sum id dist (c_trial g_diamond [0] 4) = Inr [0, 3, 2, ULLONG_MAX]"
    by code_simp
  from final_dist_below_bound[of g_diamond "[(0, 0)]" 4 "[0]"] 1 2 3
  have "(\<exists>st. cpp_trial g_diamond [(0, 0)] 4 = Inr st \<and>
           (\<forall>x \<in> set (dist st). x = ULLONG_MAX \<or> x < 4))"
    and "(\<exists>st. c_trial g_diamond [0] 4 = Inr st \<and>
           (\<forall>x \<in> set (dist st). x = ULLONG_MAX \<or> x < 4 \<or> ((4 :: U64) = 0 \<and> x = 0)))"
    by blast+
  with 1 2 3 4 5 show ?thesis by (simp add: list_all_iff)
qed

text \<open>The claim as stated fails for main.c: with \<open>B = 0\<close> the final distance of
  the source is 0, which is neither the sentinel nor below \<open>B\<close>.\<close>

theorem final_dist_below_bound_counterexample:
  "map_sum id dist (c_trial g_line [0] 0) = Inr [0, ULLONG_MAX, ULLONG_MAX] \<and>
   \<not> ((0 :: U64) = ULLONG_MAX \<or> (0 :: U64) < 0)"
  by code_simp

text \<open>Claim C2, as amended. For a well-formed graph and sources below \<open>n\<close> the
  trial returns and its final \<open>b_prime\<close> is the minimum over all distances the run
  observed at or beyond the bound, that is the \<open>d\<close> of every popped entry with
  \<open>d >= B\<close> and every relaxation candidate \<open>nd = d + w\<close> (as computed, modulo
  \<open>2^64\<close>) with \<open>nd >= B\<close>; it is the sentinel when there is none. The sentinel is
  itself a 64-bit distance, so \<open>b_prime\<close> can equal it although a candidate was
  observed.\<close>

theorem b_prime_least:
  "(wf_graph g \<and> sources_ok g src \<longrightarrow>
      (\<exists>st. cpp_trial g src B = Inr st \<and>
         b_prime st = (if observed B (trace st) = [] then ULLONG_MAX
                       else Min (set (observed B (trace st)))))) \<and>
   (wf_graph g \<and> list_all (\<lambda>s. s < g_n g) sources \<longrightarrow>
      (\<exists>st. c_trial g sources B = Inr st \<and>
         b_prime st = (if observed B (trace st) = [] then ULLONG_MAX
                       else Min (set (observed B (trace st))))))"
  using cpp_trial_b_prime[of g src B] c_trial_b_prime[of g sources B]
  by (simp add: least_of_Min)

theorem b_prime_least_witness:
  "wf_graph g_diamond \<and> sources_ok g_diamond [(0, 0)] \<and>
   list_all (\<lambda>s. s < g_n g_diamond) [0] \<and>
   map_sum id (\<lambda>st. observed 4 (trace st)) (cpp_trial g_diamond [(0, 0)] 4) = Inr [5, 4] \<and>
   map_sum id b_prime (cpp_trial g_diamond [(0, 0)] 4) = Inr 4 \<and>
   map_sum id (\<lambda>st. observed 4 (trace st)) (c_trial g_diamond [0] 4) = Inr [5, 4] \<and>
   map_sum id b_prime (c_trial g_diamond [0] 4) = Inr 4"
proof -
  have 1: "wf_graph g_diamond" by code_simp
  have 2: "sources_ok g_diamond [(0, 0)]" by code_simp
  have 3: "list_all (\<lambda>s. s < g_n g_diamond) [0]" by code_simp
  have 4: "map_sum id (\<lambda>st. observed 4 (trace st)) (cpp_trial g_diamond [(0, 0)] 4) = Inr [5, 4]"
    by code_simp
  have 5: "map_sum id (\<lambda>st. observed 4 (trace st)) (c_trial g_diamond [0] 4) = Inr [5, 4]"
    by code_simp
  from b_prime_least[of g_diamond "[(0, 0)]" 4 "[0]"] 1 2 3
  obtain st st' where "cpp_trial g_diamond [(0, 0)] 4 = Inr st"
    "b_prime st = (if observed 4 (trace st) = [] then ULLONG_MAX
                   else Min (set (observed 4 (trace st))))"
    "c_trial g_diamond [0] 4 = Inr st'"
    "b_prime st' = (if observed 4 (trace st') = [] then ULLONG_MAX
                    else Min (set (observed 4 (trace st'))))" by blast
  with 1 2 3 4 5 show ?thesis by auto
qed

text \<open>The claim as stated fails in its second half. On the graph with the one edge
  \<open>0 \<rightarrow> 1\<close> of weight \<open>2^64 - 1\<close>, source 0 and \<open>B = 1\<close>, the run computes the
  candidate \<open>nd = 2^64 - 1 >= B\<close>, yet \<open>b_prime\<close> ends as the sentinel (both files).\<close>

theorem b_prime_least_counterexample:
  "map_sum id (\<lambda>st. observed 1 (trace st)) (cpp_trial g_maxw [(0, 0)] 1) = Inr [ULLONG_MAX] \<and>
   map_sum id b_prime (cpp_trial g_maxw [(0, 0)] 1) = Inr ULLONG_MAX \<and>
   map_sum id (\<lambda>st. observed 1 (trace st)) (c_trial g_maxw [0] 1) = Inr [ULLONG_MAX] \<and>
   map_sum id b_prime (c_trial g_maxw [0] 1) = Inr ULLONG_MAX"
  by code_simp

section \<open>Claims about source selection\<close>

text \<open>Claim C5, as amended. Source selection compares neither \<open>k\<close> nor a node id
  with \<open>n\<close> and reports no range error: \<open>k <= n\<close> (random mode) and node ids in
  \<open>[0, n)\<close> (external mode) are preconditions on its caller.
  Random mode, \<open>n >= 1\<close>: whenever the generator's draws, reduced mod \<open>n\<close>, take at
  least \<open>k\<close> distinct values (which needs \<open>k <= n\<close>), \<^verbatim>\<open>pick_sources\<close> returns
  exactly \<open>k\<close> distinct node ids in \<open>[0, n)\<close>, each with initial distance 0 in
  main.cpp; and it never returns an error.
  External mode: a sources file whose header \<open>k\<close> (taken mod \<open>2^32\<close>) is followed by
  at least \<open>k\<close> complete records is read as its first \<open>k\<close> records in order, node
  ids taken mod \<open>2^32\<close>, with their \<open>d0\<close> in main.cpp and without it in main.c,
  whatever the ids are. The only input error that is reported is the non-zero
  return of \<^verbatim>\<open>read_sources_file\<close> of main.c, exactly when the header or a field
  of the \<open>k\<close> records is missing or not a number.\<close>

theorem source_selection_preconditions:
  "(0 < n \<and> k \<le> card ((\<lambda>t. rng t mod n) ` {..<T}) \<longrightarrow>
      (\<exists>out. c_pick_sources rng n k = Some (Inr out) \<and>
             cpp_pick_sources rng n k = Some (Inr (map (\<lambda>s. (s, 0)) out)) \<and>
             length out = k \<and> distinct out \<and> set out \<subseteq> {..<n})) \<and>
   (0 < n \<longrightarrow> c_pick_sources rng n k \<noteq> Some (Inl e) \<and> cpp_pick_sources rng n k \<noteq> Some (Inl e)) \<and>
   (length recs = cast_u32 (unat kk) \<longrightarrow>
      c_read_sources_file (kk # concat (map (\<lambda>(s, d0). [s, d0]) recs) @ rest)
        = Inr (map (\<lambda>(s, d0). cast_u32 (unat s)) recs) \<and>
      cpp_read_sources (map Num (kk # concat (map (\<lambda>(s, d0). [s, d0]) recs)) @ rest')
        = Inr (map (\<lambda>(s, d0). (cast_u32 (unat s), d0)) recs)) \<and>
   c_read_sources_file [] = Inl ReadFailed \<and>
   (c_read_sources_file (hdr # toks) = Inl e' \<longleftrightarrow>
      e' = ReadFailed \<and> length toks < 2 * cast_u32 (unat hdr))"
proof (intro conjI impI)
  assume a: "0 < n \<and> k \<le> card ((\<lambda>t. rng t mod n) ` {..<T})"
  have "\<exists>out. pick_loop rng n k 0 (replicate n False) [] = Some (Inr out) \<and> length out = k \<and>
          distinct out \<and> set out \<subseteq> {..<n}"
    using a by (intro pick_loop_returns[where T = T]) simp_all
  then show "\<exists>out. c_pick_sources rng n k = Some (Inr out) \<and>
             cpp_pick_sources rng n k = Some (Inr (map (\<lambda>s. (s, 0)) out)) \<and>
             length out = k \<and> distinct out \<and> set out \<subseteq> {..<n}"
    by (auto simp: c_pick_sources_def cpp_pick_sources_def)
next
  assume n: "0 < n"
  show "c_pick_sources rng n k \<noteq> Some (Inl e)"
    using pick_loop_no_error[of rng n k 0 "replicate n False" "[]" "Inl e"] n
    by (auto simp: c_pick_sources_def)
  show "cpp_pick_sources rng n k \<noteq> Some (Inl e)"
  proof
    assume "cpp_pick_sources rng n k = Some (Inl e)"
    then obtain y where y: "pick_loop rng n k 0 (replicate n False) [] = Some y"
      and m: "map_sum id (map (\<lambda>s. (s, 0 :: U64))) y = Inl e"
      by (auto simp: cpp_pick_sources_def)
    from pick_loop_no_error[OF y] n m show False by auto
  qed
next
  assume l: "length recs = cast_u32 (unat kk)"
  show "c_read_sources_file (kk # concat (map (\<lambda>(s, d0). [s, d0]) recs) @ rest)
        = Inr (map (\<lambda>(s, d0). cast_u32 (unat s)) recs)"
    using c_read_source_records_rest[of recs "cast_u32 (unat kk)" 0 rest "[]"] l
    by (simp add: c_read_sources_file_def)
  show "cpp_read_sources (map Num (kk # concat (map (\<lambda>(s, d0). [s, d0]) recs)) @ rest')
        = Inr (map (\<lambda>(s, d0). (cast_u32 (unat s), d0)) recs)"
    using cpp_read_source_records_rest[of recs "cast_u32 (unat kk)" 0 rest' "[]"] l
    by (simp add: cpp_read_sources_def istream_get_def)
next
  show "c_read_sources_file [] = Inl ReadFailed"
    by (simp add: c_read_sources_file_def)
next
  show "c_read_sources_file (hdr # toks) = Inl e' \<longleftrightarrow>
      e' = ReadFailed \<and> length toks < 2 * cast_u32 (unat hdr)"
    using c_read_source_records_error[of "cast_u32 (unat hdr)" 0 toks "[]" e']
      c_read_source_records_short[of toks "cast_u32 (unat hdr)" 0 "[]"]
    by (auto simp: c_read_sources_file_def)
qed

theorem source_selection_preconditions_witness:
  "(0 :: nat) < 3 \<and> 2 \<le> card ((\<lambda>t. t mod 3) ` {..<(2 :: nat)}) \<and>
   c_pick_sources (\<lambda>t. t) 3 2 = Some (Inr [0, 1]) \<and>
   cpp_pick_sources (\<lambda>t. t) 3 2 = Some (Inr [(0, 0), (1, 0)]) \<and>
   length [(4294967303 :: U64, 0 :: U64)] = cast_u32 (unat (4294967297 :: U64)) \<and>
   c_read_sources_file [4294967297, 4294967303, 0, 6, 0] = Inr [7] \<and>
   cpp_read_sources [Num 4294967297, Num 4294967303, Num 0, Num 6, Num 0] = Inr [(7, 0)] \<and>
   c_read_sources_file [1, 7] = Inl ReadFailed"
proof -
  have c: "2 \<le> card ((\<lambda>t. t mod 3) ` {..<(2 :: nat)})"
    by (simp add: lessThan_Suc numeral_2_eq_2)
  have l: "length [(4294967303 :: U64, 0 :: U64)] = cast_u32 (unat (4294967297 :: U64))"
    by (simp add: cast_u32_def)
  note t = source_selection_preconditions[of 3 2 "\<lambda>t. t" 2 DivisionByZero
      "[(4294967303, 0)]" 4294967297 "[6, 0]" "[Num 6, Num 0]" 1 "[7]" ReadFailed]
  from t c obtain out where
    out: "c_pick_sources (\<lambda>t. t) 3 2 = Some (Inr out)"
      "cpp_pick_sources (\<lambda>t. t) 3 2 = Some (Inr (map (\<lambda>s. (s, 0)) out))"
    by auto
  from out(1) pick_example have "out = [0, 1]" by simp
  with out have p: "c_pick_sources (\<lambda>t. t) 3 2 = Some (Inr [0, 1])"
    "cpp_pick_sources (\<lambda>t. t) 3 2 = Some (Inr [(0, 0), (1, 0)])"
    by simp_all
  from t l have r: "c_read_sources_file [4294967297, 4294967303, 0, 6, 0] = Inr [7]"
    "cpp_read_sources [Num 4294967297, Num 4294967303, Num 0, Num 6, Num 0] = Inr [(7, 0)]"
    by (simp_all add: cast_u32_def)
  from t have f: "c_read_sources_file [1, 7] = Inl ReadFailed"
    by (simp add: cast_u32_def)
  have z: "(0 :: nat) < 3" by simp
  from z c l p r f show ?thesis by blast
qed

text \<open>The claim as stated fails. A sources file with the single record
  \<open>(7, 20)\<close> is read without error for a graph with 3 nodes and the trial of
  main.cpp with \<open>B = 10\<close> runs to its end; with the record \<open>(7, 0)\<close> both files
  go on into the trial, which uses \<open>dist[7]\<close>. With \<open>n = 1\<close> and \<open>k = 2\<close>,
  \<^verbatim>\<open>pick_sources\<close> reports nothing.\<close>

theorem source_selection_preconditions_counterexample:
  "g_n g_line = 3 \<and>
   cpp_read_sources [Num 1, Num 7, Num 20] = Inr [(7, 20)] \<and>
   map_sum id dist (cpp_trial g_line [(7, 20)] 10) = Inr [ULLONG_MAX, ULLONG_MAX, ULLONG_MAX] \<and>
   c_read_sources_file [1, 7, 0] = Inr [7] \<and>
   cpp_read_sources [Num 1, Num 7, Num 0] = Inr [(7, 0)] \<and>
   cpp_trial g_line [(7, 0)] 10 = Inl OutOfBounds \<and>
   c_trial g_line [7] 10 = Inl OutOfBounds \<and>
   c_pick_sources (\<lambda>t. 0) 1 2 = None \<and>
   cpp_pick_sources (\<lambda>t. 0) 1 2 = None"
proof -
  have 1: "c_read_sources_file [1, 7, 0] = Inr [7]" by code_simp
  have 2: "cpp_read_sources [Num 1, Num 7, Num 0] = Inr [(7, 0)]" by code_simp
  have 3: "cpp_trial g_line [(7, 0)] 10 = Inl OutOfBounds" by code_simp
  have 4: "c_trial g_line [7] 10 = Inl OutOfBounds" by code_simp
  have 5: "g_n g_line = 3" by (simp add: g_line_def)
  have 6: "pick_loop (\<lambda>t. 0) 1 2 0 (replicate 1 False) [] = None"
    by (rule pick_loop_None) simp_all
  have 7: "cpp_read_sources [Num 1, Num 7, Num 20] = Inr [(7, 20)]" by code_simp
  have 8: "map_sum id dist (cpp_trial g_line [(7, 20)] 10)
             = Inr [ULLONG_MAX, ULLONG_MAX, ULLONG_MAX]" by code_simp
  from 1 2 3 4 5 6 7 8 show ?thesis
    by (simp add: c_pick_sources_def cpp_pick_sources_def)
qed

section \<open>Claims about graph construction\<close>

text \<open>Claim C6 says that in every constructed graph the range
  \<open>[head[u], head[u+1])\<close> holds exactly the out-edges of \<open>u\<close>. The loader of main.c
  breaks this on a file whose records are not sorted by source. For the file
  \<^verbatim>\<open>2 2 / 1 0 5 / 0 1 7\<close> (two nodes; edges \<open>1 \<rightarrow> 0\<close> of weight 5 and \<open>0 \<rightarrow> 1\<close>
  of weight 7) it keeps the edges in file order and patches \<open>head\<close> to \<open>[0, 2, 2]\<close>:
  the range of node 0 holds both edges, among them the edge of node 1, and the
  range of node 1 is empty. \<^verbatim>\<open>from_edge_list\<close> of main.cpp groups the same records
  by source.\<close>

theorem c_loader_unsorted_file:
  "c_read_graph_file [2, 2, 1, 0, 5, 0, 1, 7] =
     Inr \<lparr>g_head = [0, 2, 2], g_edges = [Edge 0 5, Edge 1 7], g_n = 2, g_m = 2\<rparr> \<and>
   out_edges \<lparr>g_head = [0, 2, 2], g_edges = [Edge 0 5, Edge 1 7], g_n = 2, g_m = 2\<rparr> 0
     = [Edge 0 5, Edge 1 7] \<and>
   out_edges \<lparr>g_head = [0, 2, 2], g_edges = [Edge 0 5, Edge 1 7], g_n = 2, g_m = 2\<rparr> 1
     = [] \<and>
   out_edges (from_edge_list 2 [(1, 0, 5), (0, 1, 7)]) 0 = [Edge 1 7] \<and>
   out_edges (from_edge_list 2 [(1, 0, 5), (0, 1, 7)]) 1 = [Edge 0 5]"
  by code_simp

section \<open>Claims about the distances\<close>

text \<open>Claim C9, as amended. For a well-formed graph, sources below \<open>n\<close> and a bound
  \<open>B\<close> such that no edge weight added to \<open>B\<close> exceeds \<open>2^64 - 1\<close>, the trial returns
  and the sequence of the distances \<open>d\<close> of the popped entries that passed the
  staleness check is non-decreasing (both files).\<close>

theorem popped_nondecreasing:
  "(wf_graph g \<and> sources_ok g src \<and> no_overflow g B \<longrightarrow>
      (\<exists>st. cpp_trial g src B = Inr st \<and> sorted (fresh_ds (trace st)))) \<and>
   (wf_graph g \<and> list_all (\<lambda>s. s < g_n g) sources \<and> no_overflow g B \<longrightarrow>
      (\<exists>st. c_trial g sources B = Inr st \<and> sorted (fresh_ds (trace st))))"
  using cpp_trial_sorted[of g src B] c_trial_sorted[of g sources B] by blast

theorem popped_nondecreasing_witness:
  "wf_graph g_diamond \<and> sources_ok g_diamond [(0, 0)] \<and>
   list_all (\<lambda>s. s < g_n g_diamond) [0] \<and> no_overflow g_diamond 100 \<and>
   map_sum id (\<lambda>st. fresh_ds (trace st)) (cpp_trial g_diamond [(0, 0)] 100) = Inr [0, 2, 3, 4] \<and>
   map_sum id (\<lambda>st. fresh_ds (trace st)) (c_trial g_diamond [0] 100) = Inr [0, 2, 3, 4] \<and>
   (\<exists>st. cpp_trial g_diamond [(0, 0)] 100 = Inr st \<and> sorted (fresh_ds (trace st))) \<and>
   (\<exists>st. c_trial g_diamond [0] 100 = Inr st \<and> sorted (fresh_ds (trace st)))"
proof -
  have 1: "wf_graph g_diamond" by code_simp
  have 2: "sources_ok g_diamond [(0, 0)]" by code_simp
  have 3: "list_all (\<lambda>s. s < g_n g_diamond) [0]" by code_simp
  have 4: "no_overflow g_diamond 100" by code_simp
  have 5: "map_sum id (\<lambda>st. fresh_ds (trace st)) (cpp_trial g_diamond [(0, 0)] 100)
             = Inr [0, 2, 3, 4]" by code_simp
  have 6: "map_sum id (\<lambda>st. fresh_ds (trace st)) (c_trial g_diamond [0] 100)
             = Inr [0, 2, 3, 4]" by code_simp
  from popped_nondecreasing[of g_diamond "[(0, 0)]" 100 "[0]"] 1 2 3 4 5 6
  show ?thesis by simp
qed

text \<open>The claim as stated fails when a sum wraps around. main.cpp, on the edge
  \<open>0 \<rightarrow> 1\<close> of weight \<open>2^64 - 1\<close> with the source \<open>(0, 1)\<close> and \<open>B = 10\<close>: the candidate
  \<open>1 + (2^64 - 1)\<close> is 0 in 64 bits, so the run pops distance 1 and then distance
  0. main.c, on \<open>0 \<rightarrow> 1\<close> of weight 1 and \<open>1 \<rightarrow> 2\<close> of weight \<open>2^64 - 1\<close> with source
  0: it pops the distances 0, 1, 0.\<close>

theorem popped_nondecreasing_counterexample:
  "map_sum id (\<lambda>st. fresh_ds (trace st)) (cpp_trial g_maxw [(0, 1)] 10) = Inr [1, 0] \<and>
   \<not> sorted [1, 0 :: U64] \<and>
   map_sum id (\<lambda>st. fresh_ds (trace st)) (c_trial g_wrap [0] 10) = Inr [0, 1, 0] \<and>
   \<not> sorted [0, 1, 0 :: U64]"
  by code_simp

text \<open>Claim C1, as amended. For a well-formed graph (positive weights or not),
  sources with unique node ids below \<open>n\<close>, and a bound \<open>B\<close> such that no edge weight
  added to \<open>B\<close> exceeds \<open>2^64 - 1\<close>, the trial returns, and every node \<open>v\<close> whose
  final \<open>dist[v]\<close> is strictly less than \<open>B\<close> has \<open>dist[v]\<close> equal to the true
  shortest-path distance from the active sources to \<open>v\<close>: some path from an active
  source to \<open>v\<close> has that length (its initial distance included) and no path is
  shorter. The active sources are the pairs \<open>(s, d0)\<close> with \<open>d0 < B\<close> for main.cpp
  and all sources, at distance 0, for main.c.\<close>


theorem distances_exact:
  "(wf_graph g \<and> sources_ok g src \<and> distinct (map fst src) \<and> no_overflow g B \<longrightarrow>
      (\<exists>st. cpp_trial g src B = Inr st \<and>
         (\<forall>v < g_n g. dist st ! v < B \<longrightarrow>
            shortest g (set (active B src)) v (unat (dist st ! v))))) \<and>
   (wf_graph g \<and> list_all (\<lambda>s. s < g_n g) sources \<and> no_overflow g B \<longrightarrow>
      (\<exists>st. c_trial g sources B = Inr st \<and>
         (\<forall>v < g_n g. dist st ! v < B \<longrightarrow>
            shortest g ((\<lambda>s. (s, 0)) ` set sources) v (unat (dist st ! v)))))"
  using cpp_trial_shortest[of g src B] c_trial_shortest[of g sources B] by blast

theorem distances_exact_witness:
  "wf_graph g_diamond \<and> sources_ok g_diamond [(0, 0)] \<and> distinct (map fst [(0 :: nat, 0 :: U64)]) \<and>
   list_all (\<lambda>s. s < g_n g_diamond) [0] \<and> no_overflow g_diamond 100 \<and>
   map_sum id dist (cpp_trial g_diamond [(0, 0)] 100) = Inr [0, 3, 2, 4] \<and>
   map_sum id dist (c_trial g_diamond [0] 100) = Inr [0, 3, 2, 4] \<and>
   shortest g_diamond {(0, 0)} 1 3 \<and> shortest g_diamond {(0, 0)} 3 4"
proof -
  have 1: "wf_graph g_diamond" by code_simp
  have 2: "sources_ok g_diamond [(0, 0)]" by code_simp
  have 3: "list_all (\<lambda>s. s < g_n g_diamond) [0]" by code_simp
  have 4: "no_overflow g_diamond 100" by code_simp
  have 5: "map_sum id dist (cpp_trial g_diamond [(0, 0)] 100) = Inr [0, 3, 2, 4]" by code_simp
  have 6: "map_sum id dist (c_trial g_diamond [0] 100) = Inr [0, 3, 2, 4]" by code_simp
  have n: "g_n g_diamond = 4" by (simp add: g_diamond_def)
  have a: "set (active 100 [(0, 0)]) = {(0, 0)}" by (simp add: active_def)
  from distances_exact[of g_diamond "[(0, 0)]" 100 "[0]"] 1 2 4 obtain st where
    st: "cpp_trial g_diamond [(0, 0)] 100 = Inr st"
    and sh: "\<forall>v < g_n g_diamond. dist st ! v < 100 \<longrightarrow>
            shortest g_diamond (set (active 100 [(0, 0)])) v (unat (dist st ! v))"
    by auto
  from st 5 have d: "dist st = [0, 3, 2, 4]" by simp
  from sh[rule_format, of 1] sh[rule_format, of 3] d n a
  have "shortest g_diamond {(0, 0)} 1 3" "shortest g_diamond {(0, 0)} 3 4" by simp_all
  with 1 2 3 4 5 6 show ?thesis by simp
qed

text \<open>The claim as stated fails when a sum wraps around 64 bits. main.cpp, on the
  positive-weight graph with the one edge \<open>0 \<rightarrow> 1\<close> of weight \<open>2^64 - 1\<close>, the source
  \<open>(0, 1)\<close> and \<open>B = 10\<close>: the run ends with \<open>dist[1] = 0 < B\<close>, but no path from the
  source to node 1 has length 0 (the only one has length \<open>2^64\<close>). main.c, on
  \<open>0 \<rightarrow> 1\<close> of weight 1 and \<open>1 \<rightarrow> 2\<close> of weight \<open>2^64 - 1\<close> with source 0: the run
  ends with \<open>dist[2] = 0\<close>.\<close>

theorem distances_exact_counterexample:
  "wf_graph g_maxw \<and> list_all (\<lambda>e. 0 < edge_w e) (g_edges g_maxw) \<and>
   map_sum id dist (cpp_trial g_maxw [(0, 1)] 10) = Inr [1, 0] \<and>
   \<not> shortest g_maxw (set (active 10 [(0, 1)])) 1 (unat (0 :: U64)) \<and>
   wf_graph g_wrap \<and> list_all (\<lambda>e. 0 < edge_w e) (g_edges g_wrap) \<and>
   map_sum id dist (c_trial g_wrap [0] 10) = Inr [0, 1, 0] \<and>
   \<not> shortest g_wrap ((\<lambda>s. (s, 0)) ` set [0]) 2 (unat (0 :: U64))"
proof -
  have 1: "wf_graph g_maxw" by code_simp
  have 2: "list_all (\<lambda>e. 0 < edge_w e) (g_edges g_maxw)" by code_simp
  have 3: "map_sum id dist (cpp_trial g_maxw [(0, 1)] 10) = Inr [1, 0]" by code_simp
  have 4: "wf_graph g_wrap" by code_simp
  have 5: "list_all (\<lambda>e. 0 < edge_w e) (g_edges g_wrap)" by code_simp
  have 6: "map_sum id dist (c_trial g_wrap [0] 10) = Inr [0, 1, 0]" by code_simp
  have 7: "\<not> path_to g_maxw (set (active 10 [(0, 1)])) 1 0"
    using path_positive[OF _ 1 2, of "set (active 10 [(0, 1)])" 1 0]
    by (auto simp: active_def)
  have 8: "\<not> path_to g_wrap ((\<lambda>s. (s, 0)) ` set [0]) 2 0"
    using path_positive[OF _ 4 5, of "(\<lambda>s. (s, 0)) ` set [0]" 2 0]
    by auto
  from 1 2 3 4 5 6 7 8 show ?thesis by (simp add: shortest_def)
qed

end
